theory Spec2Isabelle
  imports Main "HOL-Library.Word"
begin

unbundle bit_operations_syntax

section \<open>Data model of raid5.c\<close>

text \<open>
  The program keeps its configuration in globals that only \<open>main\<close> assigns
  (\<open>num_devices\<close>, \<open>block_size\<close>, \<open>dev_missing[]\<close>, \<open>raid_device_size\<close>);
  they form the record \<open>raid\<close>. The global \<open>rebuild_dev\<close> is read by
  \<open>do_raid5_rebuild\<close> alone, which \<open>main\<close> calls only when it names a slot: it is
  that function's argument \<open>t\<close>. The array \<open>dev_fd[]\<close> holds
  one descriptor per slot; what the model keeps per slot is the byte content of the
  back-end that descriptor refers to (\<open>disks\<close>, indexed by slot). A back-end is a block
  device of fixed size: a transfer past its end is short.

  C integers are natural numbers here. \<open>u_int64_t\<close> and \<open>u_int32_t\<close> arithmetic is
  written with its wrap-around (\<open>mod 2 ^ 64\<close>, \<open>mod 2 ^ 32\<close>). The \<open>int\<close> product
  \<open>(num_devices - 1) * block_size\<close> is undefined in C when it overflows; the model
  follows the code only where it stays below \<open>2 ^ 31\<close>; the theorems on write requests
  state that bound as a hypothesis.
\<close>

type_synonym byte = "8 word"
type_synonym block = "byte list"
type_synonym disks = "byte list list"

record raid =
  num_devices :: nat
  block_size :: nat
  dev_missing :: "bool list"
  raid_device_size :: nat

datatype error =
    DivByZero                 \<comment> \<open>integer division by zero (the process traps)\<close>
  | IOError string            \<comment> \<open>\<open>perror(...); return -1\<close> after a short transfer\<close>
  | DataAndParityMissing      \<comment> \<open>"data device and parity check device are missing"\<close>
  | MultipleMissing           \<comment> \<open>"multiple devices are missing, cannot rebuild"\<close>
  | ParityMissing             \<comment> \<open>"parity device is missing" in either write path\<close>
  | RebuildMissing nat        \<comment> \<open>"Rebuild error: data device i is missing"\<close>
  | Usage                     \<comment> \<open>\<open>argp_usage\<close>: fewer than three positional arguments\<close>
  | TooManyDevices            \<comment> \<open>\<open>errx\<close>: "At most 16 devices"\<close>
  | TooFewDevices             \<comment> \<open>\<open>errx\<close>: "RAID5 requires at least 3 devices"\<close>
  | MultipleRebuild           \<comment> \<open>"can only assign 1 +"\<close>
  | OpenFailed string         \<comment> \<open>\<open>open\<close> failed on this path\<close>
  | NoDevices                 \<comment> \<open>"no available devices" (\<open>min_blocks == 0\<close>)\<close>
  | RebuildOfMissing          \<comment> \<open>"cannot rebuild missing devices"\<close>
  | RebuildFailed error       \<comment> \<open>"Rebuild failed, aborting."\<close>

text \<open>The value a callback returns to the shim: 0 on success, -1 on every error path.\<close>

definition retcode :: "error + 'a \<Rightarrow> int" where
  "retcode r = (case r of Inl e \<Rightarrow> - 1 | Inr v \<Rightarrow> 0)"

subsection \<open>System calls\<close>

text \<open>
  \<open>pread(fd, buf, count, off)\<close> delivers the bytes that exist in \<open>[off, off + count)\<close>
  and leaves every back-end as it is; the caller compares the number of bytes with
  \<open>block_size\<close>. \<open>pwrite(fd, buf, count, off)\<close> stores as many of the bytes as fit
  below the end of the device and returns how many it stored.
\<close>

definition pread :: "disks \<Rightarrow> nat \<Rightarrow> nat \<Rightarrow> nat \<Rightarrow> block \<times> disks" where
  "pread ds i count off = (take count (drop off (ds ! i)), ds)"

definition pwrite :: "disks \<Rightarrow> nat \<Rightarrow> block \<Rightarrow> nat \<Rightarrow> nat \<times> disks" where
  "pwrite ds i data off =
     (let d = ds ! i;
          n = min (length data) (length d - off)
      in (n, ds[i := take off d @ take n data @ drop (off + n) d]))"

subsection \<open>XOR kernel\<close>

text \<open>The loops \<open>for (j = 0; j < block_size; j++) a[j] ^= b[j]\<close>.\<close>

definition xor_block :: "block \<Rightarrow> block \<Rightarrow> block" where
  "xor_block a b = map (\<lambda>(x, y). x XOR y) (zip a b)"

text \<open>\<open>memset(p, 0, block_size)\<close>.\<close>

definition zero_block :: "raid \<Rightarrow> block" where
  "zero_block st = replicate (block_size st) 0"

subsection \<open>Geometry\<close>

text \<open>
  The placement computation that opens each iteration of \<open>xmp_read\<close> and the
  read-modify-write part of \<open>xmp_write\<close>; each function is one of the C locals.
\<close>

definition logical_block :: "raid \<Rightarrow> nat \<Rightarrow> nat" where
  "logical_block st offset = offset div block_size st"

definition stripe :: "raid \<Rightarrow> nat \<Rightarrow> nat" where
  "stripe st offset = logical_block st offset div (num_devices st - 1)"

definition pos :: "raid \<Rightarrow> nat \<Rightarrow> nat" where
  "pos st offset = logical_block st offset mod (num_devices st - 1)"

definition parity_disk :: "raid \<Rightarrow> nat \<Rightarrow> nat" where
  "parity_disk st s = s mod num_devices st"

definition data_disk :: "nat \<Rightarrow> nat \<Rightarrow> nat" where
  "data_disk p d = (if d \<ge> p then d + 1 else d)"

definition phys_offset :: "raid \<Rightarrow> nat \<Rightarrow> nat" where
  "phys_offset st s = (s * block_size st) mod 2 ^ 64"

text \<open>\<open>(num_devices - 1) * block_size\<close>, the number of data bytes of one stripe.\<close>

definition stripe_span :: "raid \<Rightarrow> nat" where
  "stripe_span st = (num_devices st - 1) * block_size st"

section \<open>The I/O engine\<close>

text \<open>
  The idiom \<open>if (pread(dev_fd[i], temp, block_size, phys_offset) != block_size)
  { perror(label); return -1; }\<close> and its \<open>pwrite\<close> twin.
\<close>

definition pread_block ::
  "raid \<Rightarrow> disks \<Rightarrow> nat \<Rightarrow> nat \<Rightarrow> string \<Rightarrow> (error + block) \<times> disks" where
  "pread_block st ds i phys label =
     (case pread ds i (block_size st) phys of
        (temp, ds') \<Rightarrow>
          if length temp \<noteq> block_size st then (Inl (IOError label), ds')
          else (Inr temp, ds'))"

definition pwrite_block ::
  "raid \<Rightarrow> disks \<Rightarrow> nat \<Rightarrow> block \<Rightarrow> nat \<Rightarrow> string \<Rightarrow> (error + unit) \<times> disks" where
  "pwrite_block st ds i data phys label =
     (case pwrite ds i data phys of
        (n, ds') \<Rightarrow>
          if n \<noteq> block_size st then (Inl (IOError label), ds')
          else (Inr (), ds'))"

text \<open>
  The loop \<open>for (i = 0; i < num_devices; i++)\<close> that XORs the blocks of the other slots
  into an accumulator. The source has it three times: in \<open>xmp_read\<close> (skipping the
  parity and the data slot), and twice in \<open>do_raid5_rebuild\<close> (skipping the parity
  slot; skipping the parity slot and the rebuild target). They differ in the slots
  they skip and in the message for a missing slot.
\<close>

fun xor_peers ::
  "raid \<Rightarrow> disks \<Rightarrow> (nat \<Rightarrow> bool) \<Rightarrow> (nat \<Rightarrow> error) \<Rightarrow> string \<Rightarrow> nat \<Rightarrow> nat list \<Rightarrow> block
     \<Rightarrow> (error + block) \<times> disks" where
  "xor_peers st ds skip missing_err label phys [] acc = (Inr acc, ds)"
| "xor_peers st ds skip missing_err label phys (i # rest) acc =
     (if skip i then xor_peers st ds skip missing_err label phys rest acc
      else if dev_missing st ! i then (Inl (missing_err i), ds)
      else (case pread_block st ds i phys label of
              (Inl e, ds') \<Rightarrow> (Inl e, ds')
            | (Inr temp, ds') \<Rightarrow>
                xor_peers st ds' skip missing_err label phys rest (xor_block acc temp)))"

subsection \<open>xmp_read\<close>

text \<open>One iteration of the \<open>while\<close> loop of \<open>xmp_read\<close>, up to the \<open>memcpy\<close>.\<close>

definition read_block :: "raid \<Rightarrow> disks \<Rightarrow> nat \<Rightarrow> (error + block) \<times> disks" where
  "read_block st ds offset =
     (let s = stripe st offset;
          q = pos st offset;
          p = parity_disk st s;
          d = data_disk p q;
          phys = phys_offset st s
      in if \<not> dev_missing st ! d then pread_block st ds d phys ''pread data''
         else if dev_missing st ! p then (Inl DataAndParityMissing, ds)
         else (case pread_block st ds p phys ''pread parity'' of
                 (Inl e, ds') \<Rightarrow> (Inl e, ds')
               | (Inr temp_block, ds') \<Rightarrow>
                   xor_peers st ds' (\<lambda>i. i = p \<or> i = d) (\<lambda>i. MultipleMissing)
                     ''pread other data'' phys [0..<num_devices st] temp_block))"

text \<open>
  The loop itself. \<open>buffer\<close> is what has been copied to the caller's buffer so far,
  \<open>len\<close> is a \<open>u_int32_t\<close> and \<open>offset\<close> a \<open>u_int64_t\<close>. A zero divisor in the
  placement computation traps. The result is \<open>None\<close> when the loop does not end.
\<close>

partial_function (option) xmp_read_loop ::
  "raid \<Rightarrow> disks \<Rightarrow> byte list \<Rightarrow> nat \<Rightarrow> nat \<Rightarrow> ((error + byte list) \<times> disks) option" where
  "xmp_read_loop st ds buffer len offset =
     (if len > 0 then
        if block_size st = 0 \<or> num_devices st < 2 then Some (Inl DivByZero, ds)
        else (case read_block st ds offset of
                (Inl e, ds') \<Rightarrow> Some (Inl e, ds')
              | (Inr temp_block, ds') \<Rightarrow>
                  xmp_read_loop st ds' (buffer @ temp_block)
                    ((len + 2 ^ 32 - block_size st) mod 2 ^ 32)
                    ((offset + block_size st) mod 2 ^ 64))
      else Some (Inr buffer, ds))"

declare xmp_read_loop.simps [code]

definition xmp_read ::
  "raid \<Rightarrow> disks \<Rightarrow> nat \<Rightarrow> nat \<Rightarrow> ((error + byte list) \<times> disks) option" where
  "xmp_read st ds len offset = xmp_read_loop st ds [] len offset"

subsection \<open>xmp_write\<close>

text \<open>
  The loop \<open>for (d = 0; d < num_devices - 1; d++)\<close> of the full-stripe path: block
  \<open>d\<close> of the buffer goes to its data slot unless that slot is missing, and is XORed
  into \<open>parity_block\<close> in either case.
\<close>

fun full_stripe_data ::
  "raid \<Rightarrow> disks \<Rightarrow> byte list \<Rightarrow> nat \<Rightarrow> nat \<Rightarrow> nat list \<Rightarrow> block \<Rightarrow> (error + block) \<times> disks" where
  "full_stripe_data st ds buffer p phys [] parity_block = (Inr parity_block, ds)"
| "full_stripe_data st ds buffer p phys (d # rest) parity_block =
     (let dd = data_disk p d;
          chunk = take (block_size st) (drop (d * block_size st) buffer)
      in if \<not> dev_missing st ! dd then
           (case pwrite_block st ds dd chunk phys ''pwrite full stripe data'' of
              (Inl e, ds') \<Rightarrow> (Inl e, ds')
            | (Inr u, ds') \<Rightarrow>
                full_stripe_data st ds' buffer p phys rest (xor_block parity_block chunk))
         else full_stripe_data st ds buffer p phys rest (xor_block parity_block chunk))"

definition full_stripe_write :: "raid \<Rightarrow> disks \<Rightarrow> byte list \<Rightarrow> nat \<Rightarrow> (error + unit) \<times> disks" where
  "full_stripe_write st ds buffer offset =
     (let s = offset div stripe_span st;
          phys = phys_offset st s;
          p = parity_disk st s
      in case full_stripe_data st ds buffer p phys [0..<num_devices st - 1] (zero_block st) of
           (Inl e, ds') \<Rightarrow> (Inl e, ds')
         | (Inr parity_block, ds') \<Rightarrow>
             if \<not> dev_missing st ! p then
               pwrite_block st ds' p parity_block phys ''pwrite full stripe parity''
             else (Inl ParityMissing, ds'))"

text \<open>The read-modify-write of one logical block.\<close>

definition rmw_write :: "raid \<Rightarrow> disks \<Rightarrow> byte list \<Rightarrow> nat \<Rightarrow> (error + unit) \<times> disks" where
  "rmw_write st ds buffer offset =
     (let s = stripe st offset;
          q = pos st offset;
          p = parity_disk st s;
          d = data_disk p q;
          phys = phys_offset st s
      in case (if \<not> dev_missing st ! p then pread_block st ds p phys ''pread old parity''
               else (Inr (zero_block st), ds)) of
           (Inl e, ds1) \<Rightarrow> (Inl e, ds1)
         | (Inr old_parity, ds1) \<Rightarrow>
        (case (if \<not> dev_missing st ! d then pread_block st ds1 d phys ''pread old data''
               else (Inr (zero_block st), ds1)) of
           (Inl e, ds2) \<Rightarrow> (Inl e, ds2)
         | (Inr old_data, ds2) \<Rightarrow>
        (let new_data = take (block_size st) buffer;
             new_parity = xor_block (xor_block old_parity old_data) new_data
         in case (if \<not> dev_missing st ! d then pwrite_block st ds2 d new_data phys ''pwrite new data''
                  else (Inr (), ds2)) of
              (Inl e, ds3) \<Rightarrow> (Inl e, ds3)
            | (Inr u, ds3) \<Rightarrow>
                if \<not> dev_missing st ! p then
                  pwrite_block st ds3 p new_parity phys ''pwrite new parity''
                else (Inl ParityMissing, ds3))))"

text \<open>
  The loop of \<open>xmp_write\<close>; \<open>buffer\<close> is what remains of the caller's buffer. The
  comparison \<open>len >= (num_devices - 1) * block_size\<close> keeps \<open>len\<close> from wrapping in
  the full-stripe path; in the other path \<open>len -= block_size\<close> wraps as in
  \<open>xmp_read\<close>.
\<close>

partial_function (option) xmp_write_loop ::
  "raid \<Rightarrow> disks \<Rightarrow> byte list \<Rightarrow> nat \<Rightarrow> nat \<Rightarrow> ((error + unit) \<times> disks) option" where
  "xmp_write_loop st ds buffer len offset =
     (if len > 0 then
        if block_size st = 0 \<or> num_devices st < 2 then Some (Inl DivByZero, ds)
        else if offset mod stripe_span st = 0 \<and> len \<ge> stripe_span st then
          (case full_stripe_write st ds buffer offset of
             (Inl e, ds') \<Rightarrow> Some (Inl e, ds')
           | (Inr u, ds') \<Rightarrow>
               xmp_write_loop st ds' (drop (stripe_span st) buffer)
                 (len - stripe_span st)
                 ((offset + stripe_span st) mod 2 ^ 64))
        else
          (case rmw_write st ds buffer offset of
             (Inl e, ds') \<Rightarrow> Some (Inl e, ds')
           | (Inr u, ds') \<Rightarrow>
               xmp_write_loop st ds' (drop (block_size st) buffer)
                 ((len + 2 ^ 32 - block_size st) mod 2 ^ 32)
                 ((offset + block_size st) mod 2 ^ 64))
      else Some (Inr (), ds))"

declare xmp_write_loop.simps [code]

definition xmp_write ::
  "raid \<Rightarrow> disks \<Rightarrow> byte list \<Rightarrow> nat \<Rightarrow> nat \<Rightarrow> ((error + unit) \<times> disks) option" where
  "xmp_write st ds buf len offset = xmp_write_loop st ds buf len offset"

section \<open>Rebuild\<close>

text \<open>The body of the loop over the stripes, for the rebuild target \<open>t\<close>.\<close>

definition rebuild_stripe :: "raid \<Rightarrow> disks \<Rightarrow> nat \<Rightarrow> nat \<Rightarrow> (error + unit) \<times> disks" where
  "rebuild_stripe st ds t s =
     (let phys = phys_offset st s;
          p = parity_disk st s
      in if t = p then
           (case xor_peers st ds (\<lambda>i. i = p) RebuildMissing ''rebuild read (data)'' phys
                   [0..<num_devices st] (zero_block st) of
              (Inl e, ds') \<Rightarrow> (Inl e, ds')
            | (Inr parity_block, ds') \<Rightarrow>
                pwrite_block st ds' t parity_block phys ''rebuild write (parity)'')
         else
           (case (if \<not> dev_missing st ! p then pread_block st ds p phys ''rebuild read (parity)''
                  else (Inr (zero_block st), ds)) of
              (Inl e, ds') \<Rightarrow> (Inl e, ds')
            | (Inr data_block, ds') \<Rightarrow>
                (case xor_peers st ds' (\<lambda>i. i = p \<or> i = t) RebuildMissing ''rebuild read (data)''
                        phys [0..<num_devices st] data_block of
                   (Inl e, ds'') \<Rightarrow> (Inl e, ds'')
                 | (Inr data_block', ds'') \<Rightarrow>
                     pwrite_block st ds'' t data_block' phys ''rebuild write (data)'')))"

function rebuild_from :: "raid \<Rightarrow> disks \<Rightarrow> nat \<Rightarrow> nat \<Rightarrow> nat \<Rightarrow> (error + unit) \<times> disks" where
  "rebuild_from st ds t num_stripes s =
     (if s < num_stripes then
        (case rebuild_stripe st ds t s of
           (Inl e, ds') \<Rightarrow> (Inl e, ds')
         | (Inr u, ds') \<Rightarrow> rebuild_from st ds' t num_stripes (s + 1))
      else (Inr (), ds))"
  by pat_completeness auto
termination
  by (relation "measure (\<lambda>(st, ds, t, num_stripes, s). num_stripes - s)") auto

text \<open>
  \<open>do_raid5_rebuild\<close>: the stripe count is \<open>raid_device_size / ((num_devices - 1) *
  block_size)\<close>, which traps on a zero divisor. (The \<open>malloc\<close> of the scratch block is
  taken to succeed.)
\<close>

definition do_raid5_rebuild :: "raid \<Rightarrow> disks \<Rightarrow> nat \<Rightarrow> (error + unit) \<times> disks" where
  "do_raid5_rebuild st ds t =
     (if stripe_span st = 0 then (Inl DivByZero, ds)
      else rebuild_from st ds t (raid_device_size st div stripe_span st) 0)"

section \<open>Startup\<close>

text \<open>
  \<open>strtoul(arg, NULL, 10)\<close> on a 64-bit \<open>unsigned long\<close>: leading white space, an
  optional sign, then the longest run of decimal digits; 0 when there is none,
  \<open>ULONG_MAX\<close> when the value does not fit, negated modulo \<open>2 ^ 64\<close> after a minus.
\<close>

definition is_space :: "char \<Rightarrow> bool" where
  "is_space c \<longleftrightarrow> (of_char c :: nat) = 32 \<or> (9 \<le> (of_char c :: nat) \<and> (of_char c :: nat) \<le> 13)"

definition is_digit :: "char \<Rightarrow> bool" where
  "is_digit c \<longleftrightarrow> 48 \<le> (of_char c :: nat) \<and> (of_char c :: nat) \<le> 57"

fun digits_value :: "nat \<Rightarrow> string \<Rightarrow> nat" where
  "digits_value acc [] = acc"
| "digits_value acc (c # cs) =
     (if is_digit c then digits_value (10 * acc + (of_char c - 48)) cs else acc)"

definition strtoul :: "string \<Rightarrow> nat" where
  "strtoul arg =
     (let s1 = dropWhile is_space arg;
          neg = (s1 \<noteq> [] \<and> hd s1 = CHR ''-'');
          s2 = (if s1 \<noteq> [] \<and> (hd s1 = CHR ''-'' \<or> hd s1 = CHR ''+'') then tl s1 else s1);
          v = digits_value 0 s2
      in if v \<ge> 2 ^ 64 then 2 ^ 64 - 1
         else if neg then (2 ^ 64 - v) mod 2 ^ 64
         else v)"

text \<open>
  \<open>parse_opt\<close> over the positional arguments (the option \<open>-v\<close> only sets the trace
  flag): BLOCKSIZE is stored in a \<open>uint32_t\<close> as \<open>strtoul\<close> returns it, with no check;
  a seventeenth device is refused; fewer than three arguments print the usage.
\<close>

record arguments =
  arg_block_size :: nat
  arg_raid_device :: string
  arg_devices :: "string list"

definition parse_args :: "string list \<Rightarrow> error + arguments" where
  "parse_args args =
     (if length (drop 2 args) > 16 then Inl TooManyDevices
      else if length args < 3 then Inl Usage
      else Inr \<lparr>arg_block_size = strtoul (args ! 0) mod 2 ^ 32,
                arg_raid_device = args ! 1,
                arg_devices = drop 2 args\<rparr>)"

text \<open>
  The \<open>int block_size\<close> as the \<open>uint64_t\<close> divisor of \<open>size / block_size\<close>: a value
  from \<open>2 ^ 31\<close> on is a negative \<open>int\<close> and is sign-extended.
\<close>

definition block_size_u64 :: "nat \<Rightarrow> nat" where
  "block_size_u64 b = (if b \<ge> 2 ^ 31 then 2 ^ 64 - 2 ^ 32 + b else b)"

text \<open>
  The loop of \<open>main\<close> over the device arguments. \<open>fs\<close> gives the content of the
  back-end a path opens, or \<open>None\<close> when \<open>open\<close> fails; the paths of different slots
  are taken to name different back-ends. A missing slot has no back-end: its entry in
  \<open>disks\<close> is empty and the engine never reads it.
\<close>

fun open_devices ::
  "(string \<Rightarrow> byte list option) \<Rightarrow> nat \<Rightarrow> string list \<Rightarrow> nat \<Rightarrow> bool list \<Rightarrow> disks \<Rightarrow> nat option \<Rightarrow> nat
     \<Rightarrow> error + (bool list \<times> disks \<times> nat option \<times> nat)" where
  "open_devices fs bs [] i missing ds rebuild_dev min_blocks =
     Inr (missing, ds, rebuild_dev, min_blocks)"
| "open_devices fs bs (dev_path # rest) i missing ds rebuild_dev min_blocks =
     (if dev_path = ''MISSING'' then
        open_devices fs bs rest (i + 1) (missing @ [True]) (ds @ [[]]) rebuild_dev min_blocks
      else
        (let plus = (dev_path \<noteq> [] \<and> hd dev_path = CHR ''+'')
         in if plus \<and> rebuild_dev \<noteq> None then Inl MultipleRebuild
            else
              (let rebuild_dev' = (if plus then Some i else rebuild_dev);
                   path = (if plus then tl dev_path else dev_path)
               in case fs path of
                    None \<Rightarrow> Inl (OpenFailed path)
                  | Some content \<Rightarrow>
                      if bs = 0 then Inl DivByZero
                      else
                        (let blocks = (length content mod 2 ^ 64) div block_size_u64 bs;
                             min_blocks' = (if min_blocks = 0 \<or> blocks < min_blocks
                                            then blocks else min_blocks)
                         in open_devices fs bs rest (i + 1) (missing @ [False])
                              (ds @ [content]) rebuild_dev' min_blocks'))))"

text \<open>
  \<open>main\<close> up to the call of \<open>buse_main\<close>: \<open>Inl\<close> is an exit before any request is
  served (or the trap of a division by zero), \<open>Inr\<close> is the state the callbacks then
  serve requests on. \<open>block_size\<close> is kept as the \<open>uint32_t\<close> value; from \<open>2 ^ 31\<close> on
  it is a negative \<open>int\<close> in C, and then every back-end below \<open>2 ^ 63\<close> bytes has zero
  blocks and startup ends in \<open>NoDevices\<close>.
\<close>

definition main_startup ::
  "(string \<Rightarrow> byte list option) \<Rightarrow> string list \<Rightarrow> error + (raid \<times> disks)" where
  "main_startup fs args =
     (case parse_args args of
        Inl e \<Rightarrow> Inl e
      | Inr a \<Rightarrow>
          (let n = length (arg_devices a);
               bs = arg_block_size a
           in if n < 3 then Inl TooFewDevices
              else
                (case open_devices fs bs (arg_devices a) 0 [] [] None 0 of
                   Inl e \<Rightarrow> Inl e
                 | Inr (missing, ds, rebuild_dev, min_blocks) \<Rightarrow>
                     if min_blocks = 0 then Inl NoDevices
                     else
                       (let st = \<lparr>num_devices = n, block_size = bs, dev_missing = missing,
                                  raid_device_size =
                                    ((n - 1) * min_blocks * block_size_u64 bs) mod 2 ^ 64\<rparr>
                        in case rebuild_dev of
                             None \<Rightarrow> Inr (st, ds)
                           | Some t \<Rightarrow>
                               if missing ! t then Inl RebuildOfMissing
                               else
                                 (case do_raid5_rebuild st ds t of
                                    (Inl e, ds') \<Rightarrow> Inl (RebuildFailed e)
                                  | (Inr u, ds') \<Rightarrow> Inr (st, ds'))))))"

section \<open>Notions of the specification\<close>

text \<open>The block of slot \<open>i\<close> at stripe \<open>s\<close>: the \<open>block_size\<close> bytes at \<open>s * block_size\<close>.\<close>

definition blk :: "raid \<Rightarrow> disks \<Rightarrow> nat \<Rightarrow> nat \<Rightarrow> block" where
  "blk st ds i s = take (block_size st) (drop (s * block_size st) (ds ! i))"

text \<open>The byte-wise XOR of a list of blocks.\<close>

definition xor_blocks :: "raid \<Rightarrow> block list \<Rightarrow> block" where
  "xor_blocks st bs = foldr xor_block bs (zero_block st)"

text \<open>
  Parity consistency of stripe \<open>s\<close>: every slot holds the whole stripe and the XOR
  over the blocks of all slots is zero at every byte position.
\<close>

definition parity_ok :: "raid \<Rightarrow> disks \<Rightarrow> nat \<Rightarrow> bool" where
  "parity_ok st ds s \<longleftrightarrow>
     (\<forall>i \<in> set [0..<num_devices st]. s * block_size st + block_size st \<le> length (ds ! i))
     \<and> xor_blocks st (map (\<lambda>i. blk st ds i s) [0..<num_devices st]) = zero_block st"

text \<open>The stripe count \<open>K\<close>, as \<open>do_raid5_rebuild\<close> computes it.\<close>

definition num_stripes :: "raid \<Rightarrow> nat" where
  "num_stripes st = raid_device_size st div stripe_span st"

text \<open>
  A well-sized set: 3 to 16 slots, a positive block size whose stripe span is an
  \<open>int\<close>, a virtual size of \<open>K\<close> whole stripes that fits 64 bits, and \<open>K\<close> blocks on
  every back-end that is present. This is the sizing the specification describes
  (\<open>min_blocks\<close> the least block count of the back-ends present); it is a hypothesis of
  the rebuild theorem. \<open>main\<close> does not establish it for every command line: its loop
  takes \<open>min_blocks == 0\<close> for "not yet set", so a back-end of less than one block that
  is followed by a longer one leaves \<open>K\<close> above what the short back-end holds (see
  \<open>short_fs\<close> below), and it sets no limit on the number of missing slots.
\<close>

definition raid_ok :: "raid \<Rightarrow> disks \<Rightarrow> bool" where
  "raid_ok st ds \<longleftrightarrow>
     3 \<le> num_devices st \<and> num_devices st \<le> 16 \<and> 0 < block_size st
     \<and> stripe_span st < 2 ^ 31
     \<and> length (dev_missing st) = num_devices st \<and> length ds = num_devices st
     \<and> raid_device_size st < 2 ^ 64
     \<and> raid_device_size st = num_stripes st * stripe_span st
     \<and> (\<forall>i \<in> set [0..<num_devices st].
          \<not> dev_missing st ! i \<longrightarrow> num_stripes st * block_size st \<le> length (ds ! i))"

definition all_present :: "raid \<Rightarrow> bool" where
  "all_present st \<longleftrightarrow> (\<forall>i \<in> set [0..<num_devices st]. \<not> dev_missing st ! i)"

text \<open>
  The disks after slot \<open>i\<close> received the block \<open>data\<close> at byte offset \<open>phys\<close>.
\<close>

definition put_blk :: "raid \<Rightarrow> disks \<Rightarrow> nat \<Rightarrow> nat \<Rightarrow> block \<Rightarrow> disks" where
  "put_blk st ds i phys data =
     ds[i := take phys (ds ! i) @ data @ drop (phys + block_size st) (ds ! i)]"

text \<open>
  The block a degraded read reconstructs for data slot \<open>d\<close> of stripe \<open>s\<close>: the
  XOR of the parity block and of the blocks of the other data slots.
\<close>

definition reconstructed :: "raid \<Rightarrow> disks \<Rightarrow> nat \<Rightarrow> nat \<Rightarrow> nat \<Rightarrow> block" where
  "reconstructed st ds s p d =
     xor_blocks st (blk st ds p s #
       map (\<lambda>i. blk st ds i s) (filter (\<lambda>i. i \<noteq> p \<and> i \<noteq> d) [0..<num_devices st]))"

text \<open>
  The block a read delivers for the logical block at \<open>offset\<close>: the block of its data
  slot when that slot is present, the reconstruction otherwise.
\<close>

definition delivered :: "raid \<Rightarrow> disks \<Rightarrow> nat \<Rightarrow> block" where
  "delivered st ds offset =
     (let s = stripe st offset;
          p = parity_disk st s;
          d = data_disk p (pos st offset)
      in if \<not> dev_missing st ! d then blk st ds d s else reconstructed st ds s p d)"

text \<open>The \<open>d\<close>-th incoming block of a write buffer.\<close>

definition chunk :: "raid \<Rightarrow> byte list \<Rightarrow> nat \<Rightarrow> block" where
  "chunk st buffer d = take (block_size st) (drop (d * block_size st) buffer)"

text \<open>
  The disks after a full-stripe write of \<open>buffer\<close> to stripe \<open>s\<close>: a missing slot is
  as before; the parity slot holds the XOR of the incoming blocks at \<open>s * block_size\<close>;
  slot \<open>i\<close> below the parity slot holds incoming block \<open>i\<close>, slot \<open>i\<close> above it
  incoming block \<open>i - 1\<close>.
\<close>

definition full_stripe_image :: "raid \<Rightarrow> disks \<Rightarrow> byte list \<Rightarrow> nat \<Rightarrow> disks" where
  "full_stripe_image st ds buffer s =
     map (\<lambda>i. if dev_missing st ! i then ds ! i
              else take (s * block_size st) (ds ! i)
                   @ (if i = parity_disk st s
                      then xor_blocks st (map (chunk st buffer) [0..<num_devices st - 1])
                      else chunk st buffer (if i < parity_disk st s then i else i - 1))
                   @ drop (s * block_size st + block_size st) (ds ! i))
       [0..<num_devices st]"

text \<open>The block a full-stripe write of \<open>buffer\<close> to stripe \<open>s\<close> stores on slot \<open>i\<close>.\<close>

definition incoming :: "raid \<Rightarrow> byte list \<Rightarrow> nat \<Rightarrow> nat \<Rightarrow> block" where
  "incoming st buffer s i =
     (if i = parity_disk st s
      then xor_blocks st (map (chunk st buffer) [0..<num_devices st - 1])
      else chunk st buffer (if i < parity_disk st s then i else i - 1))"

text \<open>
  A sequence of write requests \<open>(buf, len, offset)\<close>, each of which returns success:
  the disks after the last one, \<open>None\<close> as soon as one request fails or does not
  return.
\<close>

fun write_seq :: "raid \<Rightarrow> disks \<Rightarrow> (byte list \<times> nat \<times> nat) list \<Rightarrow> disks option" where
  "write_seq st ds [] = Some ds"
| "write_seq st ds ((buf, len, offset) # reqs) =
     (case xmp_write st ds buf len offset of
        Some (Inr u, ds') \<Rightarrow> write_seq st ds' reqs
      | _ \<Rightarrow> None)"

text \<open>
  The disks \<open>orig\<close> with the first \<open>j\<close> blocks of slot \<open>t\<close> as they are and the rest
  of that slot replaced by what the replacement device \<open>g\<close> holds there.
\<close>

definition rebuilt :: "raid \<Rightarrow> disks \<Rightarrow> nat \<Rightarrow> byte list \<Rightarrow> nat \<Rightarrow> disks" where
  "rebuilt st orig t g j =
     orig[t := take (j * block_size st) (orig ! t) @ drop (j * block_size st) g]"

text \<open>The scenario of the specification: three slots, blocks of four bytes, two stripes.\<close>

definition raid3 :: raid where
  "raid3 = \<lparr>num_devices = 3, block_size = 4, dev_missing = [False, False, False],
            raid_device_size = 16\<rparr>"

definition blank3 :: disks where
  "blank3 = [[0, 0, 0, 0, 0, 0, 0, 0], [0, 0, 0, 0, 0, 0, 0, 0], [0, 0, 0, 0, 0, 0, 0, 0]]"

text \<open>The bytes \<open>AAAA BBBB\<close>, and the disks once they are written at offset 0.\<close>

definition aaaa_bbbb :: "byte list" where
  "aaaa_bbbb = [65, 65, 65, 65, 66, 66, 66, 66]"

definition written3 :: disks where
  "written3 = [[3, 3, 3, 3, 0, 0, 0, 0], [65, 65, 65, 65, 0, 0, 0, 0],
               [66, 66, 66, 66, 0, 0, 0, 0]]"

text \<open>The disks after logical block 1 was then overwritten with the bytes 1 2 3 4.\<close>

definition rewritten3 :: disks where
  "rewritten3 = [[64, 67, 66, 69, 0, 0, 0, 0], [65, 65, 65, 65, 0, 0, 0, 0],
                 [1, 2, 3, 4, 0, 0, 0, 0]]"

text \<open>The scenario with slot 1 missing, and with slots 0 and 1 missing.\<close>

definition degraded3 :: raid where
  "degraded3 = raid3\<lparr>dev_missing := [False, True, False]\<rparr>"

definition failed3 :: raid where
  "failed3 = raid3\<lparr>dev_missing := [True, True, False]\<rparr>"

text \<open>
  Back-ends for startup: three blank devices of two blocks named a, b and c; and a set
  of one stripe whose slot 0 (parity, AAAA XOR BBBB) is lost, whose slot 1 (AAAA) was
  replaced by the zeroed device r, and whose slot 2 (BBBB) is the device c.
\<close>

definition blank_fs :: "string \<Rightarrow> byte list option" where
  "blank_fs = [''a'' \<mapsto> [0, 0, 0, 0, 0, 0, 0, 0], ''b'' \<mapsto> [0, 0, 0, 0, 0, 0, 0, 0],
               ''c'' \<mapsto> [0, 0, 0, 0, 0, 0, 0, 0]]"

definition lost_parity_fs :: "string \<Rightarrow> byte list option" where
  "lost_parity_fs = [''r'' \<mapsto> [0, 0, 0, 0], ''c'' \<mapsto> [66, 66, 66, 66]]"

text \<open>
  Back-ends of unequal size: the device b has two bytes, less than one block of four;
  the device c has two blocks.
\<close>

definition short_fs :: "string \<Rightarrow> byte list option" where
  "short_fs = [''b'' \<mapsto> [0, 0], ''c'' \<mapsto> [0, 0, 0, 0, 0, 0, 0, 0]]"

section \<open>Placement\<close>

lemma stripe_phys_le:
  assumes "0 < block_size st"
  shows "stripe st offset * block_size st \<le> offset"
proof -
  have "stripe st offset \<le> offset div block_size st"
    by (simp add: stripe_def logical_block_def)
  then have "stripe st offset * block_size st \<le> (offset div block_size st) * block_size st"
    by (rule mult_le_mono1)
  also have "\<dots> \<le> offset" by simp
  finally show ?thesis .
qed

lemma phys_offset_exact:
  assumes "0 < block_size st" and "offset < 2 ^ 64"
  shows "phys_offset st (stripe st offset) = stripe st offset * block_size st"
proof -
  have "stripe st offset * block_size st < 2 ^ 64"
    using stripe_phys_le [OF assms(1), of offset] assms(2) by linarith
  then show ?thesis by (simp add: phys_offset_def)
qed

lemma pos_less:
  assumes "2 \<le> num_devices st"
  shows "pos st offset < num_devices st - 1"
  using assms by (simp add: pos_def)

lemma parity_disk_less:
  assumes "0 < num_devices st"
  shows "parity_disk st s < num_devices st"
  using assms by (simp add: parity_disk_def)

lemma data_disk_less:
  assumes "d < n - 1"
  shows "data_disk p d < n"
  using assms by (auto simp: data_disk_def)

lemma data_disk_neq: "data_disk p d \<noteq> p"
  by (simp add: data_disk_def)

text \<open>
  C1. For 3 \<le> N \<le> 16, B > 0 and a 64-bit offset, with L = offset / B, the locals of
  the placement computation are stripe = L div (N-1), pos = L mod (N-1),
  parity = stripe mod N, data = pos below the parity slot and pos + 1 from it on, and
  phys_off = stripe * B (the 64-bit product does not wrap). Hence
  L = stripe * (N-1) + pos with pos < N-1, parity < N, data < N and data \<noteq> parity.
  For B = 4 and N = 3 the logical blocks 0, 1, 2 (offsets 0, 4, 8) are placed at
  (stripe 0, parity 0, data 1, phys_off 0), (stripe 0, parity 0, data 2, phys_off 0)
  and (stripe 1, parity 1, data 0, phys_off 4).
\<close>

theorem placement_laws:
  assumes N: "3 \<le> num_devices st" "num_devices st \<le> 16"
    and B: "0 < block_size st"
    and off: "offset < 2 ^ 64"
  shows "(let L = logical_block st offset;
              s = stripe st offset;
              q = pos st offset;
              p = parity_disk st s;
              d = data_disk p q
          in L = offset div block_size st
           \<and> s = L div (num_devices st - 1)
           \<and> q = L mod (num_devices st - 1)
           \<and> p = s mod num_devices st
           \<and> (q < p \<longrightarrow> d = q)
           \<and> (q \<ge> p \<longrightarrow> d = q + 1)
           \<and> phys_offset st s = s * block_size st
           \<and> L = s * (num_devices st - 1) + q
           \<and> q < num_devices st - 1
           \<and> p < num_devices st
           \<and> d < num_devices st
           \<and> d \<noteq> p)
       \<and> (\<forall>st3 :: raid. num_devices st3 = 3 \<and> block_size st3 = 4 \<longrightarrow>
           (stripe st3 0, parity_disk st3 (stripe st3 0),
            data_disk (parity_disk st3 (stripe st3 0)) (pos st3 0),
            phys_offset st3 (stripe st3 0)) = (0, 0, 1, 0)
         \<and> (stripe st3 4, parity_disk st3 (stripe st3 4),
            data_disk (parity_disk st3 (stripe st3 4)) (pos st3 4),
            phys_offset st3 (stripe st3 4)) = (0, 0, 2, 0)
         \<and> (stripe st3 8, parity_disk st3 (stripe st3 8),
            data_disk (parity_disk st3 (stripe st3 8)) (pos st3 8),
            phys_offset st3 (stripe st3 8)) = (1, 1, 0, 4))"
proof -
  have 1: "stripe st offset = logical_block st offset div (num_devices st - 1)"
    by (simp add: stripe_def)
  have 2: "pos st offset = logical_block st offset mod (num_devices st - 1)"
    by (simp add: pos_def)
  have 3: "phys_offset st (stripe st offset) = stripe st offset * block_size st"
    using B off by (rule phys_offset_exact)
  have 4: "logical_block st offset
             = stripe st offset * (num_devices st - 1) + pos st offset"
    unfolding 1 2 by (rule div_mult_mod_eq [symmetric])
  have 5: "pos st offset < num_devices st - 1"
    using N by (intro pos_less) simp
  have 6: "parity_disk st (stripe st offset) < num_devices st"
    using N by (intro parity_disk_less) simp
  have 7: "data_disk (parity_disk st (stripe st offset)) (pos st offset) < num_devices st"
    using 5 by (rule data_disk_less)
  have 8: "data_disk (parity_disk st (stripe st offset)) (pos st offset)
             \<noteq> parity_disk st (stripe st offset)"
    by (rule data_disk_neq)
  have general: "(let L = logical_block st offset;
              s = stripe st offset;
              q = pos st offset;
              p = parity_disk st s;
              d = data_disk p q
          in L = offset div block_size st
           \<and> s = L div (num_devices st - 1)
           \<and> q = L mod (num_devices st - 1)
           \<and> p = s mod num_devices st
           \<and> (q < p \<longrightarrow> d = q)
           \<and> (q \<ge> p \<longrightarrow> d = q + 1)
           \<and> phys_offset st s = s * block_size st
           \<and> L = s * (num_devices st - 1) + q
           \<and> q < num_devices st - 1
           \<and> p < num_devices st
           \<and> d < num_devices st
           \<and> d \<noteq> p)"
    unfolding Let_def
  proof (intro conjI impI)
    show "logical_block st offset = offset div block_size st"
      by (simp add: logical_block_def)
    show "parity_disk st (stripe st offset) = stripe st offset mod num_devices st"
      by (simp add: parity_disk_def)
    show "data_disk (parity_disk st (stripe st offset)) (pos st offset) = pos st offset"
      if "pos st offset < parity_disk st (stripe st offset)"
      using that by (simp add: data_disk_def)
    show "data_disk (parity_disk st (stripe st offset)) (pos st offset) = pos st offset + 1"
      if "parity_disk st (stripe st offset) \<le> pos st offset"
      using that by (simp add: data_disk_def)
  qed (rule 1 2 3 4 5 6 7 8)+
  have concrete: "(stripe st3 0, parity_disk st3 (stripe st3 0),
            data_disk (parity_disk st3 (stripe st3 0)) (pos st3 0),
            phys_offset st3 (stripe st3 0)) = (0, 0, 1, 0)
         \<and> (stripe st3 4, parity_disk st3 (stripe st3 4),
            data_disk (parity_disk st3 (stripe st3 4)) (pos st3 4),
            phys_offset st3 (stripe st3 4)) = (0, 0, 2, 0)
         \<and> (stripe st3 8, parity_disk st3 (stripe st3 8),
            data_disk (parity_disk st3 (stripe st3 8)) (pos st3 8),
            phys_offset st3 (stripe st3 8)) = (1, 1, 0, 4)"
    if "num_devices st3 = 3 \<and> block_size st3 = 4" for st3 :: raid
    using that
    by (simp add: stripe_def logical_block_def pos_def parity_disk_def data_disk_def
        phys_offset_def)
  from general concrete show ?thesis by blast
qed

theorem placement_laws_witness:
  "3 \<le> num_devices raid3 \<and> num_devices raid3 \<le> 16 \<and> 0 < block_size raid3
   \<and> (8 :: nat) < 2 ^ 64
   \<and> stripe raid3 8 = 1 \<and> pos raid3 8 = 0 \<and> parity_disk raid3 1 = 1
   \<and> data_disk 1 0 = 0 \<and> phys_offset raid3 1 = 4"
proof -
  have h: "3 \<le> num_devices raid3" "num_devices raid3 \<le> 16" "0 < block_size raid3"
    "(8 :: nat) < 2 ^ 64"
    by (simp_all add: raid3_def)
  from placement_laws [OF h] show ?thesis
    by (simp add: raid3_def stripe_def pos_def logical_block_def parity_disk_def
        data_disk_def phys_offset_def)
qed

section \<open>Blocks and system calls\<close>

subsection \<open>Blocks under XOR\<close>

lemma length_xor_block [simp]: "length (xor_block a b) = min (length a) (length b)"
  by (simp add: xor_block_def)

lemma xor_block_commute: "xor_block a b = xor_block b a"
proof (induction a arbitrary: b)
  case Nil
  then show ?case by (simp add: xor_block_def)
next
  case (Cons x a)
  then show ?case by (cases b) (simp_all add: xor_block_def xor.commute)
qed

lemma xor_block_assoc: "xor_block (xor_block a b) c = xor_block a (xor_block b c)"
proof (induction a arbitrary: b c)
  case Nil
  then show ?case by (simp add: xor_block_def)
next
  case (Cons x a)
  show ?case
  proof (cases b)
    case Nil
    then show ?thesis by (simp add: xor_block_def)
  next
    case b: (Cons y b')
    show ?thesis
    proof (cases c)
      case Nil
      then show ?thesis by (simp add: xor_block_def)
    next
      case (Cons z c')
      with b Cons.IH [of b' c'] show ?thesis by (simp add: xor_block_def xor.assoc)
    qed
  qed
qed

lemma xor_block_left_commute: "xor_block a (xor_block b c) = xor_block b (xor_block a c)"
  by (metis xor_block_assoc xor_block_commute)

lemmas xor_block_ac = xor_block_assoc xor_block_commute xor_block_left_commute

lemma xor_block_zero_right: "length a \<le> n \<Longrightarrow> xor_block a (replicate n 0) = a"
proof (induction a arbitrary: n)
  case Nil
  then show ?case by (simp add: xor_block_def)
next
  case (Cons x a)
  then show ?case by (cases n) (simp_all add: xor_block_def)
qed

lemma xor_block_self: "xor_block a a = replicate (length a) 0"
  by (induction a) (simp_all add: xor_block_def)

lemma xor_block_cancel:
  assumes "length b = length a"
  shows "xor_block a (xor_block a b) = b"
proof -
  have "xor_block a (xor_block a b) = xor_block b (xor_block a a)"
    by (simp add: xor_block_ac)
  also have "\<dots> = b"
    using assms by (simp add: xor_block_self xor_block_zero_right)
  finally show ?thesis .
qed

lemma xor_block_eq_zeroD:
  assumes "xor_block a b = replicate n 0" and "length a = n" and "length b = n"
  shows "a = b"
proof -
  have "xor_block a (xor_block a b) = b"
    using assms by (intro xor_block_cancel) simp
  moreover have "xor_block a (xor_block a b) = a"
    unfolding assms(1) using assms(2) by (simp add: xor_block_zero_right)
  ultimately show ?thesis by simp
qed

lemma length_zero_block [simp]: "length (zero_block st) = block_size st"
  by (simp add: zero_block_def)

lemma xor_blocks_Nil [simp]: "xor_blocks st [] = zero_block st"
  by (simp add: xor_blocks_def)

lemma xor_blocks_Cons [simp]: "xor_blocks st (b # bs) = xor_block b (xor_blocks st bs)"
  by (simp add: xor_blocks_def)

lemma length_xor_blocks:
  "\<forall>b \<in> set bs. length b = block_size st \<Longrightarrow> length (xor_blocks st bs) = block_size st"
  by (induction bs) simp_all

lemma xor_blocks_split:
  assumes "distinct js" and "d \<in> set js"
    and "\<forall>i \<in> set js. length (f i) = block_size st"
  shows "xor_blocks st (map f js)
           = xor_block (f d) (xor_blocks st (map f (filter (\<lambda>i. i \<noteq> d) js)))"
  using assms
proof (induction js)
  case Nil
  then show ?case by simp
next
  case (Cons j js)
  show ?case
  proof (cases "j = d")
    case True
    with Cons.prems have "filter (\<lambda>i. i \<noteq> d) js = js"
      by (auto simp: filter_id_conv)
    with True show ?thesis by simp
  next
    case False
    with Cons show ?thesis by (simp add: xor_block_ac)
  qed
qed

subsection \<open>The system calls on whole blocks\<close>

lemma pread_block_eq:
  assumes "0 < block_size st"
  shows "pread_block st ds i phys label =
           (if phys + block_size st \<le> length (ds ! i)
            then (Inr (take (block_size st) (drop phys (ds ! i))), ds)
            else (Inl (IOError label), ds))"
  using assms by (auto simp: pread_block_def pread_def min_def)

lemma pread_block_frame: "snd (pread_block st ds i phys label) = ds"
  by (simp add: pread_block_def pread_def)

lemma pwrite_block_eq:
  assumes "0 < block_size st" and "length data \<le> block_size st"
  shows "pwrite_block st ds i data phys label =
           (if length data = block_size st \<and> phys + block_size st \<le> length (ds ! i)
            then (Inr (), put_blk st ds i phys data)
            else (Inl (IOError label), snd (pwrite ds i data phys)))"
  using assms by (auto simp: pwrite_block_def pwrite_def put_blk_def min_def Let_def)

lemma pread_block_InrD:
  assumes "0 < block_size st" and "pread_block st ds i phys label = (Inr b, ds')"
  shows "phys + block_size st \<le> length (ds ! i)"
    and "b = take (block_size st) (drop phys (ds ! i))" and "ds' = ds"
  using assms(2) unfolding pread_block_eq [OF assms(1)] by (auto split: if_splits)

lemma pwrite_block_InrD:
  assumes "0 < block_size st" and "length data \<le> block_size st"
    and "pwrite_block st ds i data phys label = (Inr u, ds')"
  shows "length data = block_size st" and "phys + block_size st \<le> length (ds ! i)"
    and "ds' = put_blk st ds i phys data"
  using assms(3) unfolding pwrite_block_eq [OF assms(1,2)] by (auto split: if_splits)

lemma length_put_blk [simp]: "length (put_blk st ds i phys data) = length ds"
  by (simp add: put_blk_def)

lemma put_blk_other: "j \<noteq> i \<Longrightarrow> put_blk st ds i phys data ! j = ds ! j"
  by (simp add: put_blk_def)

lemma length_put_blk_nth:
  assumes "length data = block_size st" and "phys + block_size st \<le> length (ds ! i)"
  shows "length (put_blk st ds i phys data ! j) = length (ds ! j)"
proof (cases "i < length ds")
  case True
  with assms show ?thesis by (cases "j = i") (simp_all add: put_blk_def)
next
  case False
  then have "length ds \<le> i" by simp
  then show ?thesis by (simp add: put_blk_def list_update_beyond)
qed

lemma put_blk_same:
  assumes "i < length ds" and "length data = block_size st"
    and "phys + block_size st \<le> length (ds ! i)"
  shows "take (block_size st) (drop phys (put_blk st ds i phys data ! i)) = data"
  using assms by (simp add: put_blk_def)

lemma put_blk_before:
  assumes "i < length ds" and "off + block_size st \<le> phys"
    and "phys + block_size st \<le> length (ds ! i)"
  shows "take (block_size st) (drop off (put_blk st ds i phys data ! i))
           = take (block_size st) (drop off (ds ! i))"
  using assms by (auto simp add: put_blk_def drop_take min_def)

lemma put_blk_after:
  assumes "i < length ds" and "phys + block_size st \<le> off"
    and "length data = block_size st"
    and "phys + block_size st \<le> length (ds ! i)"
  shows "take (block_size st) (drop off (put_blk st ds i phys data ! i))
           = take (block_size st) (drop off (ds ! i))"
  using assms by (simp add: put_blk_def)

section \<open>The read path\<close>

lemma length_blk:
  assumes "s * block_size st + block_size st \<le> length (ds ! i)"
  shows "length (blk st ds i s) = block_size st"
  using assms by (simp add: blk_def)

lemma pread_block_blk:
  assumes "0 < block_size st" and "s * block_size st + block_size st \<le> length (ds ! i)"
  shows "pread_block st ds i (s * block_size st) label = (Inr (blk st ds i s), ds)"
  using assms by (simp add: pread_block_eq blk_def)

lemma xor_peers_frame: "snd (xor_peers st ds skip me label phys js acc) = ds"
proof (induction js arbitrary: acc)
  case Nil
  then show ?case by simp
next
  case (Cons j js)
  show ?case
  proof (cases "pread_block st ds j phys label")
    case (Pair r ds')
    with pread_block_frame [of st ds j phys label] have "ds' = ds" by simp
    with Pair Cons.IH show ?thesis by (cases r) simp_all
  qed
qed

lemma xor_peers_ok:
  assumes "0 < block_size st" and "length acc = block_size st"
    and "\<forall>i \<in> set js. \<not> skip i \<longrightarrow>
           \<not> dev_missing st ! i \<and> s * block_size st + block_size st \<le> length (ds ! i)"
  shows "xor_peers st ds skip me label (s * block_size st) js acc =
           (Inr (xor_block acc
              (xor_blocks st (map (\<lambda>i. blk st ds i s) (filter (\<lambda>i. \<not> skip i) js)))), ds)"
  using assms(2,3)
proof (induction js arbitrary: acc)
  case Nil
  then show ?case by (simp add: xor_block_zero_right zero_block_def)
next
  case (Cons j js)
  show ?case
  proof (cases "skip j")
    case True
    with Cons show ?thesis by simp
  next
    case False
    with Cons.prems have pres: "\<not> dev_missing st ! j"
      and len: "s * block_size st + block_size st \<le> length (ds ! j)"
      by simp_all
    have "length (xor_block acc (blk st ds j s)) = block_size st"
      using Cons.prems(1) len by (simp add: length_blk)
    with Cons.IH [of "xor_block acc (blk st ds j s)"] Cons.prems(2)
    have "xor_peers st ds skip me label (s * block_size st) js (xor_block acc (blk st ds j s))
            = (Inr (xor_block (xor_block acc (blk st ds j s))
                (xor_blocks st (map (\<lambda>i. blk st ds i s) (filter (\<lambda>i. \<not> skip i) js)))), ds)"
      by simp
    with False pres pread_block_blk [OF assms(1) len, of label]
    show ?thesis by (simp add: xor_block_assoc)
  qed
qed

lemma xor_peers_missing:
  assumes "\<exists>i \<in> set js. \<not> skip i \<and> dev_missing st ! i"
  shows "\<exists>e. xor_peers st ds skip me label phys js acc = (Inl e, ds)"
  using assms
proof (induction js arbitrary: acc)
  case Nil
  then show ?case by simp
next
  case (Cons j js)
  show ?case
  proof (cases "skip j \<or> \<not> dev_missing st ! j")
    case False
    then show ?thesis by simp
  next
    case True
    with Cons.prems have rest: "\<exists>i \<in> set js. \<not> skip i \<and> dev_missing st ! i" by auto
    show ?thesis
    proof (cases "skip j")
      case True
      with Cons.IH [OF rest] show ?thesis by simp
    next
      case False
      with True have pres: "\<not> dev_missing st ! j" by simp
      show ?thesis
      proof (cases "pread_block st ds j phys label")
        case (Pair r ds')
        with pread_block_frame [of st ds j phys label] have "ds' = ds" by simp
        with Pair False pres Cons.IH [OF rest] show ?thesis by (cases r) simp_all
      qed
    qed
  qed
qed

lemma read_block_frame: "snd (read_block st ds offset) = ds"
proof -
  let ?s = "stripe st offset"
  let ?p = "parity_disk st ?s"
  let ?d = "data_disk ?p (pos st offset)"
  show ?thesis
  proof (cases "pread_block st ds ?p (phys_offset st ?s) ''pread parity''")
    case (Pair r ds')
    with pread_block_frame [of st ds ?p "phys_offset st ?s" "''pread parity''"]
    have "ds' = ds" by simp
    with Pair show ?thesis
      by (cases r) (simp_all add: read_block_def Let_def pread_block_frame xor_peers_frame)
  qed
qed

lemma read_block_direct:
  assumes "0 < block_size st" and "offset < 2 ^ 64"
    and "\<not> dev_missing st ! data_disk (parity_disk st (stripe st offset)) (pos st offset)"
    and "stripe st offset * block_size st + block_size st
           \<le> length (ds ! data_disk (parity_disk st (stripe st offset)) (pos st offset))"
  shows "read_block st ds offset = (Inr (delivered st ds offset), ds)"
  using assms
  by (simp add: read_block_def delivered_def Let_def phys_offset_exact pread_block_blk)

lemma read_block_degraded:
  assumes B: "0 < block_size st" and off: "offset < 2 ^ 64"
    and miss: "dev_missing st ! data_disk (parity_disk st (stripe st offset)) (pos st offset)"
    and others: "\<forall>i \<in> set [0..<num_devices st].
           i \<noteq> data_disk (parity_disk st (stripe st offset)) (pos st offset) \<longrightarrow>
             \<not> dev_missing st ! i
             \<and> stripe st offset * block_size st + block_size st \<le> length (ds ! i)"
    and p: "parity_disk st (stripe st offset) < num_devices st"
  shows "read_block st ds offset = (Inr (delivered st ds offset), ds)"
proof -
  let ?s = "stripe st offset"
  let ?p = "parity_disk st ?s"
  let ?d = "data_disk ?p (pos st offset)"
  have pd: "?p \<noteq> ?d" using data_disk_neq [of ?p "pos st offset"] by simp
  with others p have pp: "\<not> dev_missing st ! ?p"
    and pl: "?s * block_size st + block_size st \<le> length (ds ! ?p)"
    by simp_all
  have peers: "\<forall>i \<in> set [0..<num_devices st]. \<not> (i = ?p \<or> i = ?d) \<longrightarrow>
      \<not> dev_missing st ! i \<and> ?s * block_size st + block_size st \<le> length (ds ! i)"
    using others by simp
  have "xor_peers st ds (\<lambda>i. i = ?p \<or> i = ?d) (\<lambda>i. MultipleMissing) ''pread other data''
          (?s * block_size st) [0..<num_devices st] (blk st ds ?p ?s)
        = (Inr (xor_block (blk st ds ?p ?s)
             (xor_blocks st (map (\<lambda>i. blk st ds i ?s)
                (filter (\<lambda>i. \<not> (i = ?p \<or> i = ?d)) [0..<num_devices st])))), ds)"
    using B length_blk [OF pl] peers by (rule xor_peers_ok)
  with miss pp B off pread_block_blk [OF B pl, of "''pread parity''"]
  show ?thesis
    by (simp add: read_block_def delivered_def reconstructed_def Let_def phys_offset_exact
        de_Morgan_disj)
qed

lemma read_block_refused:
  assumes miss: "dev_missing st ! data_disk (parity_disk st (stripe st offset)) (pos st offset)"
    and second: "dev_missing st ! parity_disk st (stripe st offset)
       \<or> (\<exists>i < num_devices st. i \<noteq> parity_disk st (stripe st offset)
            \<and> i \<noteq> data_disk (parity_disk st (stripe st offset)) (pos st offset)
            \<and> dev_missing st ! i)"
  shows "\<exists>e. read_block st ds offset = (Inl e, ds)"
proof -
  let ?s = "stripe st offset"
  let ?p = "parity_disk st ?s"
  let ?d = "data_disk ?p (pos st offset)"
  show ?thesis
  proof (cases "dev_missing st ! ?p")
    case True
    with miss show ?thesis by (simp add: read_block_def Let_def)
  next
    case False
    with second have "\<exists>i \<in> set [0..<num_devices st]. \<not> (i = ?p \<or> i = ?d) \<and> dev_missing st ! i"
      by auto
    from xor_peers_missing [OF this]
    have peers: "\<exists>e. xor_peers st ds (\<lambda>i. i = ?p \<or> i = ?d) (\<lambda>i. MultipleMissing)
        ''pread other data'' (phys_offset st ?s) [0..<num_devices st] acc = (Inl e, ds)" for acc
      by simp
    show ?thesis
    proof (cases "pread_block st ds ?p (phys_offset st ?s) ''pread parity''")
      case (Pair r ds')
      with pread_block_frame [of st ds ?p "phys_offset st ?s" "''pread parity''"]
      have "ds' = ds" by simp
      with Pair miss False peers show ?thesis
        by (cases r) (simp_all add: read_block_def Let_def)
    qed
  qed
qed

subsection \<open>The loop of xmp_read\<close>

lemma xmp_read_loop_done: "xmp_read_loop st ds buffer 0 offset = Some (Inr buffer, ds)"
  by (subst xmp_read_loop.simps) simp

lemma u32_sub:
  fixes len b :: nat
  assumes "b \<le> len" and "len < 2 ^ 32"
  shows "(len + 2 ^ 32 - b) mod 2 ^ 32 = len - b"
proof -
  have "len + 2 ^ 32 - b = 2 ^ 32 + (len - b)"
    using assms(1) by (simp only: add.commute [of len] Nat.add_diff_assoc)
  then have "(len + 2 ^ 32 - b) mod 2 ^ 32 = (2 ^ 32 + (len - b)) mod 2 ^ 32"
    by (simp only:)
  also have "\<dots> = (len - b) mod 2 ^ 32"
    by (rule mod_add_self1)
  also have "\<dots> = len - b"
    using assms(2) by (intro mod_less) (rule less_imp_diff_less)
  finally show ?thesis .
qed

lemma xmp_read_loop_step:
  assumes "0 < block_size st" and "2 \<le> num_devices st"
    and "block_size st \<le> len" and "len < 2 ^ 32"
  shows "xmp_read_loop st ds buffer len offset =
           (case read_block st ds offset of
              (Inl e, ds') \<Rightarrow> Some (Inl e, ds')
            | (Inr temp_block, ds') \<Rightarrow>
                xmp_read_loop st ds' (buffer @ temp_block) (len - block_size st)
                  ((offset + block_size st) mod 2 ^ 64))"
proof -
  have "0 < len" using assms(1,3) by simp
  with assms(1,2) show ?thesis
    by (subst xmp_read_loop.simps, subst u32_sub [OF assms(3,4)]) simp
qed

lemma upt_0_Suc_shift: "[0..<Suc k] = 0 # map Suc [0..<k]"
  by (simp add: upt_conv_Cons map_Suc_upt del: upt_Suc)

lemma xmp_read_loop_blocks:
  assumes B: "0 < block_size st" and N: "2 \<le> num_devices st"
  shows "k * block_size st < 2 ^ 32 \<Longrightarrow> offset + k * block_size st \<le> 2 ^ 64 \<Longrightarrow>
         \<forall>j<k. read_block st ds (offset + j * block_size st) = (Inr (f j), ds) \<Longrightarrow>
         xmp_read_loop st ds buffer (k * block_size st) offset
           = Some (Inr (buffer @ concat (map f [0..<k])), ds)"
proof (induction k arbitrary: buffer offset f)
  case 0
  then show ?case by (simp add: xmp_read_loop_done)
next
  case (Suc k)
  have first: "read_block st ds offset = (Inr (f 0), ds)"
    using Suc.prems(3) [rule_format, of 0] by simp
  have step: "xmp_read_loop st ds buffer (Suc k * block_size st) offset
      = xmp_read_loop st ds (buffer @ f 0) (k * block_size st)
          ((offset + block_size st) mod 2 ^ 64)"
    using xmp_read_loop_step [OF B N, of "Suc k * block_size st" ds buffer offset]
      Suc.prems(1) first by simp
  show ?case
  proof (cases k)
    case 0
    with step show ?thesis by (simp add: xmp_read_loop_done)
  next
    case (Suc k')
    with Suc.prems(2) B have "offset + block_size st < 2 ^ 64" by simp
    then have wrap: "(offset + block_size st) mod 2 ^ 64 = offset + block_size st" by simp
    have rest: "\<forall>j<k. read_block st ds (offset + block_size st + j * block_size st)
        = (Inr ((f \<circ> Suc) j), ds)"
    proof (intro allI impI)
      fix j assume "j < k"
      with Suc.prems(3) [rule_format, of "Suc j"]
      show "read_block st ds (offset + block_size st + j * block_size st)
        = (Inr ((f \<circ> Suc) j), ds)"
        by (simp add: add.assoc)
    qed
    have "xmp_read_loop st ds (buffer @ f 0) (k * block_size st) (offset + block_size st)
        = Some (Inr ((buffer @ f 0) @ concat (map (f \<circ> Suc) [0..<k])), ds)"
      using Suc.prems(1,2) rest by (intro Suc.IH) (simp_all add: add.assoc)
    with step wrap show ?thesis
      by (simp add: upt_0_Suc_shift del: upt_Suc)
  qed
qed

lemma xmp_read_loop_refused:
  assumes B: "0 < block_size st" and N: "2 \<le> num_devices st"
  shows "k * block_size st < 2 ^ 32 \<Longrightarrow> offset + k * block_size st \<le> 2 ^ 64 \<Longrightarrow>
         j0 < k \<Longrightarrow> \<exists>e. read_block st ds (offset + j0 * block_size st) = (Inl e, ds) \<Longrightarrow>
         \<exists>e. xmp_read_loop st ds buffer (k * block_size st) offset = Some (Inl e, ds)"
proof (induction k arbitrary: buffer offset j0)
  case 0
  then show ?case by simp
next
  case (Suc k)
  note step = xmp_read_loop_step [OF B N, of "Suc k * block_size st" ds buffer offset]
  show ?case
  proof (cases "read_block st ds offset")
    case (Pair r ds')
    with read_block_frame [of st ds offset] have [simp]: "ds' = ds" by simp
    show ?thesis
    proof (cases r)
      case (Inl e)
      with Pair step Suc.prems(1) show ?thesis by simp
    next
      case (Inr b)
      with Pair Suc.prems(4) have "j0 \<noteq> 0" by (cases j0) auto
      then obtain j1 where j1: "j0 = Suc j1" by (cases j0) auto
      with Suc.prems(3) have "j1 < k" by simp
      then have "0 < k" by simp
      with Suc.prems(2) B have "offset + block_size st < 2 ^ 64"
        by (cases k) simp_all
      then have wrap: "(offset + block_size st) mod 2 ^ 64 = offset + block_size st" by simp
      have "\<exists>e. xmp_read_loop st ds (buffer @ b) (k * block_size st) (offset + block_size st)
          = Some (Inl e, ds)"
        using Suc.prems(1,2,4) \<open>j1 < k\<close> j1
        by (intro Suc.IH [of _ j1]) (simp_all add: add.assoc)
      with Pair Inr step wrap Suc.prems(1) show ?thesis by simp
    qed
  qed
qed

lemma xmp_read_loop_frame:
  assumes "xmp_read_loop st ds buffer len offset = Some y"
  shows "snd y = ds"
  using assms
proof (induction rule: xmp_read_loop.raw_induct [rotated 1, consumes 1, case_names step])
  case (step loop st ds buffer len offset y)
  show ?case
  proof (cases "0 < len \<and> \<not> (block_size st = 0 \<or> num_devices st < 2)")
    case False
    with step(2) show ?thesis by (auto split: if_splits)
  next
    case True
    show ?thesis
    proof (cases "read_block st ds offset")
      case (Pair r0 ds0)
      with read_block_frame [of st ds offset] have ds0: "ds0 = ds" by simp
      show ?thesis
      proof (cases r0)
        case (Inl e)
        with step(2) True Pair ds0 show ?thesis by auto
      next
        case (Inr b)
        with step(2) True Pair ds0 have "loop st ds (buffer @ b)
            ((len + 2 ^ 32 - block_size st) mod 2 ^ 32)
            ((offset + block_size st) mod 2 ^ 64) = Some y"
          by simp
        then show ?thesis by (rule step(1))
      qed
    qed
  qed
qed

subsection \<open>Reconstruction from a consistent stripe\<close>

lemma reconstructed_eq:
  assumes par: "parity_ok st ds s" and p: "p < num_devices st" and d: "d < num_devices st"
    and pd: "p \<noteq> d"
  shows "reconstructed st ds s p d = blk st ds d s"
proof -
  let ?f = "\<lambda>i. blk st ds i s"
  let ?all = "[0..<num_devices st]"
  let ?notp = "filter (\<lambda>i. i \<noteq> p) ?all"
  let ?rest = "xor_blocks st (map ?f (filter (\<lambda>i. i \<noteq> p \<and> i \<noteq> d) ?all))"
  from par have fit: "\<forall>i \<in> set ?all. s * block_size st + block_size st \<le> length (ds ! i)"
    and zero: "xor_blocks st (map ?f ?all) = zero_block st"
    unfolding parity_ok_def by blast+
  have len: "\<forall>i \<in> set ?all. length (?f i) = block_size st"
  proof
    fix i assume "i \<in> set ?all"
    with fit have "s * block_size st + block_size st \<le> length (ds ! i)" by blast
    then show "length (?f i) = block_size st" by (rule length_blk)
  qed
  have e1: "xor_blocks st (map ?f ?all) = xor_block (?f p) (xor_blocks st (map ?f ?notp))"
  proof (rule xor_blocks_split)
    show "distinct ?all" by simp
    show "p \<in> set ?all" using p by simp
    show "\<forall>i \<in> set ?all. length (?f i) = block_size st" by (rule len)
  qed
  have e2: "xor_blocks st (map ?f ?notp)
      = xor_block (?f d) (xor_blocks st (map ?f (filter (\<lambda>i. i \<noteq> d) ?notp)))"
  proof (rule xor_blocks_split)
    show "distinct ?notp" by simp
    show "d \<in> set ?notp" using d pd by simp
    show "\<forall>i \<in> set ?notp. length (?f i) = block_size st" using len by simp
  qed
  have ff: "filter (\<lambda>i. i \<noteq> d) ?notp = filter (\<lambda>i. i \<noteq> p \<and> i \<noteq> d) ?all"
    by simp
  have total: "xor_blocks st (map ?f ?all) = xor_block (?f d) (xor_block (?f p) ?rest)"
    unfolding e1 e2 ff by (rule xor_block_left_commute)
  have rec: "reconstructed st ds s p d = xor_block (?f p) ?rest"
    unfolding reconstructed_def by (rule xor_blocks_Cons)
  have "length ?rest = block_size st"
  proof (rule length_xor_blocks)
    show "\<forall>b \<in> set (map ?f (filter (\<lambda>i. i \<noteq> p \<and> i \<noteq> d) ?all)). length b = block_size st"
      using len by simp
  qed
  moreover have "length (?f p) = block_size st" using len p by simp
  ultimately have lrec: "length (xor_block (?f p) ?rest) = block_size st" by simp
  have lfd: "length (?f d) = block_size st" using len d by simp
  from zero total have "xor_block (?f d) (xor_block (?f p) ?rest) = replicate (block_size st) 0"
    by (simp only: zero_block_def)
  then have "?f d = xor_block (?f p) ?rest"
    using lfd lrec by (rule xor_block_eq_zeroD)
  then show ?thesis unfolding rec by (rule sym)
qed

lemma length_concat_blocks:
  "\<forall>j<k. length (f j) = b \<Longrightarrow> length (concat (map f [0..<k])) = k * b"
  by (induction k) simp_all

lemma geometry_dev_missing_update [simp]:
  "stripe (st\<lparr>dev_missing := x\<rparr>) offset = stripe st offset"
  "pos (st\<lparr>dev_missing := x\<rparr>) offset = pos st offset"
  "parity_disk (st\<lparr>dev_missing := x\<rparr>) s = parity_disk st s"
  "phys_offset (st\<lparr>dev_missing := x\<rparr>) s = phys_offset st s"
  "stripe_span (st\<lparr>dev_missing := x\<rparr>) = stripe_span st"
  "blk (st\<lparr>dev_missing := x\<rparr>) ds i s = blk st ds i s"
  by (simp_all add: stripe_def pos_def logical_block_def parity_disk_def phys_offset_def
      stripe_span_def blk_def)

lemma delivered_consistent:
  assumes N: "3 \<le> num_devices st" and par: "parity_ok st ds (stripe st offset)"
  shows "delivered st ds offset
           = blk st ds (data_disk (parity_disk st (stripe st offset)) (pos st offset))
               (stripe st offset)"
proof -
  let ?s = "stripe st offset"
  let ?p = "parity_disk st ?s"
  let ?d = "data_disk ?p (pos st offset)"
  from N have p: "?p < num_devices st" by (intro parity_disk_less) simp
  from N have d: "?d < num_devices st" by (intro data_disk_less pos_less) simp
  have "?p \<noteq> ?d" using data_disk_neq [of ?p "pos st offset"] by simp
  with par p d have "reconstructed st ds ?s ?p ?d = blk st ds ?d ?s"
    by (rule reconstructed_eq)
  then show ?thesis by (simp add: delivered_def Let_def)
qed

lemma read_block_delivered:
  assumes B: "0 < block_size st" and N: "3 \<le> num_devices st" and off: "offset < 2 ^ 64"
    and one: "\<forall>i \<in> set [0..<num_devices st]. dev_missing st ! i \<longleftrightarrow> i = m"
    and fits: "\<forall>i < num_devices st. i \<noteq> m \<longrightarrow>
        stripe st offset * block_size st + block_size st \<le> length (ds ! i)"
  shows "read_block st ds offset = (Inr (delivered st ds offset), ds)"
    and "length (delivered st ds offset) = block_size st"
proof -
  let ?s = "stripe st offset"
  let ?p = "parity_disk st ?s"
  let ?d = "data_disk ?p (pos st offset)"
  from N have p: "?p < num_devices st" by (intro parity_disk_less) simp
  from N have d: "?d < num_devices st" by (intro data_disk_less pos_less) simp
  have res: "read_block st ds offset = (Inr (delivered st ds offset), ds)
      \<and> length (delivered st ds offset) = block_size st"
  proof (cases "?d = m")
    case False
    with one d have pres: "\<not> dev_missing st ! ?d" by simp
    from False d fits have "?s * block_size st + block_size st \<le> length (ds ! ?d)" by simp
    with B off pres show ?thesis
      by (simp add: read_block_direct delivered_def Let_def length_blk)
  next
    case True
    with one d have miss: "dev_missing st ! ?d" by simp
    have others: "\<forall>i \<in> set [0..<num_devices st]. i \<noteq> ?d \<longrightarrow>
        \<not> dev_missing st ! i \<and> ?s * block_size st + block_size st \<le> length (ds ! i)"
      using one True fits by simp
    have r: "read_block st ds offset = (Inr (delivered st ds offset), ds)"
      using B off miss others p by (rule read_block_degraded)
    have "?d \<noteq> ?p" by (rule data_disk_neq)
    with True have pm: "?p \<noteq> m" by simp
    have "length (xor_blocks st
        (map (\<lambda>i. blk st ds i ?s) (filter (\<lambda>i. i \<noteq> ?p \<and> i \<noteq> ?d) [0..<num_devices st])))
        = block_size st"
      using fits True by (intro length_xor_blocks) (simp add: length_blk)
    moreover have "length (blk st ds ?p ?s) = block_size st"
      using fits p pm by (intro length_blk) simp
    ultimately have "length (delivered st ds offset) = block_size st"
      using miss by (simp add: delivered_def reconstructed_def Let_def)
    with r show ?thesis by simp
  qed
  from res show "read_block st ds offset = (Inr (delivered st ds offset), ds)" by simp
  from res show "length (delivered st ds offset) = block_size st" by simp
qed

section \<open>Properties of xmp_read\<close>

text \<open>
  C10. A read never writes to a back-end: whatever the length, the offset and the
  slot configuration, and whether \<open>xmp_read\<close> returns success or an error, the
  content of every slot after the call is the content before it.
\<close>

theorem xmp_read_frame:
  assumes "xmp_read st ds len offset = Some y"
  shows "snd y = ds"
  using assms unfolding xmp_read_def by (rule xmp_read_loop_frame)

text \<open>
  C4. Double-failure refusal. When a read request of \<open>k\<close> blocks touches a logical
  block whose data slot is missing, and the parity slot of that stripe or any other
  slot is missing too, the read returns the error code -1 and no buffer.
\<close>

theorem double_failure_refused:
  assumes N: "3 \<le> num_devices st" and B: "0 < block_size st"
    and len: "len = k * block_size st" "len < 2 ^ 32"
    and rng: "offset + len \<le> 2 ^ 64"
    and j: "j < k"
    and miss: "dev_missing st !
        data_disk (parity_disk st (stripe st (offset + j * block_size st)))
          (pos st (offset + j * block_size st))"
    and second: "dev_missing st ! parity_disk st (stripe st (offset + j * block_size st))
       \<or> (\<exists>i < num_devices st.
            i \<noteq> parity_disk st (stripe st (offset + j * block_size st))
            \<and> i \<noteq> data_disk (parity_disk st (stripe st (offset + j * block_size st)))
                    (pos st (offset + j * block_size st))
            \<and> dev_missing st ! i)"
  shows "\<exists>r. xmp_read st ds len offset = Some (r, ds) \<and> retcode r = - 1
           \<and> (\<forall>buf. r \<noteq> Inr buf)"
proof -
  from miss second
  have "\<exists>e. read_block st ds (offset + j * block_size st) = (Inl e, ds)"
    by (rule read_block_refused)
  with B N len rng j
  have "\<exists>e. xmp_read_loop st ds [] (k * block_size st) offset = Some (Inl e, ds)"
    by (intro xmp_read_loop_refused [where ?j0.0 = j]) simp_all
  then obtain e where "xmp_read st ds len offset = Some (Inl e, ds)"
    using len(1) by (auto simp: xmp_read_def)
  then show ?thesis by (simp add: retcode_def)
qed

text \<open>
  With exactly one slot \<open>m\<close> missing, a read request of \<open>k\<close> blocks, on a set where
  every other slot holds the stripes of these blocks, returns success and fills the
  buffer with \<open>len\<close> bytes: each block whose data slot is present is that slot's block,
  each block whose data slot is \<open>m\<close> is the XOR of the stripe's parity block and the
  other data blocks. Where the stripes read are parity consistent, this is what the
  read returns when no slot is missing.
\<close>

lemma degraded_read_sized:
  assumes N: "3 \<le> num_devices st" and B: "0 < block_size st"
    and one: "\<forall>i \<in> set [0..<num_devices st]. dev_missing st ! i \<longleftrightarrow> i = m"
    and len: "len = k * block_size st" "len < 2 ^ 32"
    and rng: "offset + len \<le> 2 ^ 64"
    and fits: "\<forall>j < k. \<forall>i < num_devices st. i \<noteq> m \<longrightarrow>
        stripe st (offset + j * block_size st) * block_size st + block_size st
          \<le> length (ds ! i)"
  shows "xmp_read st ds len offset
           = Some (Inr (concat (map (\<lambda>j. delivered st ds (offset + j * block_size st)) [0..<k])), ds)
       \<and> length (concat (map (\<lambda>j. delivered st ds (offset + j * block_size st)) [0..<k])) = len
       \<and> ((\<forall>j<k. parity_ok st ds (stripe st (offset + j * block_size st))) \<longrightarrow>
            xmp_read (st\<lparr>dev_missing := replicate (num_devices st) False\<rparr>) ds len offset
              = xmp_read st ds len offset)"
proof -
  let ?f = "\<lambda>j. delivered st ds (offset + j * block_size st)"
  let ?st0 = "st\<lparr>dev_missing := replicate (num_devices st) False\<rparr>"
  have inside: "offset + j * block_size st + block_size st \<le> 2 ^ 64" if "j < k" for j
  proof -
    from that have "Suc j * block_size st \<le> k * block_size st"
      by (intro mult_le_mono1) simp
    with rng len(1) show ?thesis by simp
  qed
  have o64: "offset + j * block_size st < 2 ^ 64" if "j < k" for j
    using inside [OF that] B by simp
  have each: "read_block st ds (offset + j * block_size st) = (Inr (?f j), ds)"
    and each_len: "length (?f j) = block_size st" if "j < k" for j
  proof -
    from fits that have f: "\<forall>i < num_devices st. i \<noteq> m \<longrightarrow>
        stripe st (offset + j * block_size st) * block_size st + block_size st
          \<le> length (ds ! i)"
      by simp
    from read_block_delivered [OF B N o64 [OF that] one f]
    show "read_block st ds (offset + j * block_size st) = (Inr (?f j), ds)"
      and "length (?f j) = block_size st" by simp_all
  qed
  have k32: "k * block_size st < 2 ^ 32" using len by simp
  have k64: "offset + k * block_size st \<le> 2 ^ 64" using rng len(1) by simp
  have N2: "2 \<le> num_devices st" using N by simp
  have loop: "xmp_read_loop st ds [] (k * block_size st) offset
      = Some (Inr ([] @ concat (map ?f [0..<k])), ds)"
    using B N2 k32 k64 each by (intro xmp_read_loop_blocks) simp_all
  then have result: "xmp_read st ds len offset = Some (Inr (concat (map ?f [0..<k])), ds)"
    using len(1) by (simp add: xmp_read_def)
  have filled: "length (concat (map ?f [0..<k])) = len"
    using each_len len(1) by (simp add: length_concat_blocks)
  have same: "xmp_read ?st0 ds len offset = xmp_read st ds len offset"
    if cons: "\<forall>j<k. parity_ok st ds (stripe st (offset + j * block_size st))"
  proof -
    have each0: "read_block ?st0 ds (offset + j * block_size st) = (Inr (?f j), ds)"
      if "j < k" for j
    proof -
      let ?o = "offset + j * block_size st"
      let ?d = "data_disk (parity_disk st (stripe st ?o)) (pos st ?o)"
      from cons that have par: "parity_ok st ds (stripe st ?o)" by simp
      from N have d: "?d < num_devices st" by (intro data_disk_less pos_less) simp
      with par have fit: "stripe st ?o * block_size st + block_size st \<le> length (ds ! ?d)"
        by (simp add: parity_ok_def)
      have "read_block ?st0 ds ?o = (Inr (delivered ?st0 ds ?o), ds)"
        using B o64 [OF that] d fit by (intro read_block_direct) simp_all
      moreover have "delivered ?st0 ds ?o = blk st ds ?d (stripe st ?o)"
        using d by (simp add: delivered_def Let_def)
      moreover have "?f j = blk st ds ?d (stripe st ?o)"
        using N par by (rule delivered_consistent)
      ultimately show ?thesis by simp
    qed
    have "xmp_read_loop ?st0 ds [] (k * block_size ?st0) offset
      = Some (Inr ([] @ concat (map ?f [0..<k])), ds)"
      using B N2 k32 k64 each0 by (intro xmp_read_loop_blocks) simp_all
    with result len(1) show ?thesis by (simp add: xmp_read_def)
  qed
  from result filled same show ?thesis by blast
qed

text \<open>
  The same for a set sized as the specification describes: a virtual device of \<open>K\<close>
  stripes, \<open>K\<close> blocks on every back-end that is present, and a request inside the
  virtual device.
\<close>

lemma degraded_read_inside:
  assumes N: "3 \<le> num_devices st" and B: "0 < block_size st"
    and one: "\<forall>i \<in> set [0..<num_devices st]. dev_missing st ! i \<longleftrightarrow> i = m"
    and len: "len = k * block_size st" "len < 2 ^ 32"
    and S: "K * stripe_span st \<le> 2 ^ 64"
    and rng: "offset + len \<le> K * stripe_span st"
    and holds: "\<forall>i < num_devices st. i \<noteq> m \<longrightarrow> K * block_size st \<le> length (ds ! i)"
  shows "xmp_read st ds len offset
           = Some (Inr (concat (map (\<lambda>j. delivered st ds (offset + j * block_size st)) [0..<k])), ds)
       \<and> length (concat (map (\<lambda>j. delivered st ds (offset + j * block_size st)) [0..<k])) = len
       \<and> ((\<forall>j<k. parity_ok st ds (stripe st (offset + j * block_size st))) \<longrightarrow>
            xmp_read (st\<lparr>dev_missing := replicate (num_devices st) False\<rparr>) ds len offset
              = xmp_read st ds len offset)"
proof -
  have fits: "\<forall>j < k. \<forall>i < num_devices st. i \<noteq> m \<longrightarrow>
        stripe st (offset + j * block_size st) * block_size st + block_size st
          \<le> length (ds ! i)"
  proof (intro allI impI)
    fix j i assume j: "j < k" and i: "i < num_devices st" "i \<noteq> m"
    let ?o = "offset + j * block_size st"
    from j have "Suc j * block_size st \<le> k * block_size st" by (intro mult_le_mono1) simp
    with rng len(1) have "?o + block_size st \<le> K * stripe_span st" by simp
    with B have "?o < (K * (num_devices st - 1)) * block_size st"
      by (simp add: stripe_span_def mult.assoc)
    then have "?o div block_size st < K * (num_devices st - 1)"
      unfolding div_less_iff_less_mult [OF B] .
    moreover from N have "0 < num_devices st - 1" by simp
    ultimately have "stripe st ?o < K"
      by (simp add: stripe_def logical_block_def div_less_iff_less_mult)
    then have "Suc (stripe st ?o) \<le> K" by simp
    then have "Suc (stripe st ?o) * block_size st \<le> K * block_size st"
      by (rule mult_le_mono1)
    moreover from holds i have "K * block_size st \<le> length (ds ! i)" by simp
    ultimately show "stripe st ?o * block_size st + block_size st \<le> length (ds ! i)"
      by simp
  qed
  from rng S have "offset + len \<le> 2 ^ 64" by simp
  with N B one len show ?thesis using fits by (rule degraded_read_sized)
qed

subsection \<open>The scenario, evaluated\<close>

lemma range3: "{0..<3::nat} = {0, 1, 2}"
  by auto

lemma upt3: "[0..<3] = [0, 1, 2]" "[0..<2] = [0, 1]" "[0..<1] = [0]"
  by (simp_all add: upt_rec)

lemma replicate_numerals:
  "replicate 4 x = [x, x, x, x]" "replicate 3 x = [x, x, x]"
  by (simp_all add: numeral_eq_Suc)

lemmas scenario_defs = raid3_def degraded3_def failed3_def blank3_def written3_def aaaa_bbbb_def

lemmas geometry_defs = stripe_def pos_def logical_block_def parity_disk_def data_disk_def
  phys_offset_def stripe_span_def num_stripes_def

lemma raid_ok_scenario: "raid_ok raid3 blank3" "raid_ok raid3 written3" "raid_ok degraded3 written3"
  by (simp_all add: raid_ok_def scenario_defs geometry_defs range3)

theorem xmp_read_frame_witness:
  "xmp_read raid3 blank3 4 0 = Some (Inr [0, 0, 0, 0], blank3)
   \<and> snd (Inr [0, 0, 0, 0] :: error + byte list, blank3) = blank3
   \<and> xmp_read raid3 blank3 4 16 = Some (Inl (IOError ''pread data''), blank3)"
proof -
  have ok: "xmp_read raid3 blank3 4 0 = Some (Inr [0, 0, 0, 0], blank3)"
    by (simp add: xmp_read_def xmp_read_loop.simps read_block_def scenario_defs geometry_defs
        pread_block_def pread_def)
  have err: "xmp_read raid3 blank3 4 16 = Some (Inl (IOError ''pread data''), blank3)"
    by (simp add: xmp_read_def xmp_read_loop.simps read_block_def scenario_defs geometry_defs
        pread_block_def pread_def)
  from xmp_read_frame [OF ok] xmp_read_frame [OF err] ok err show ?thesis by simp
qed

theorem double_failure_refused_witness:
  "dev_missing failed3 ! data_disk (parity_disk failed3 (stripe failed3 0)) (pos failed3 0)
   \<and> dev_missing failed3 ! parity_disk failed3 (stripe failed3 0)
   \<and> (\<exists>r. xmp_read failed3 written3 4 0 = Some (r, written3) \<and> retcode r = - 1
          \<and> (\<forall>buf. r \<noteq> Inr buf))"
proof -
  have N: "3 \<le> num_devices failed3" and B: "0 < block_size failed3"
    and len: "(4::nat) = 1 * block_size failed3" "(4::nat) < 2 ^ 32"
    and rng: "(0::nat) + 4 \<le> 2 ^ 64" and j: "(0::nat) < 1"
    by (simp_all add: scenario_defs)
  have miss: "dev_missing failed3 !
      data_disk (parity_disk failed3 (stripe failed3 (0 + 0 * block_size failed3)))
        (pos failed3 (0 + 0 * block_size failed3))"
    by (simp add: scenario_defs geometry_defs)
  have par: "dev_missing failed3 ! parity_disk failed3 (stripe failed3 (0 + 0 * block_size failed3))"
    by (simp add: scenario_defs geometry_defs)
  from double_failure_refused [OF N B len rng j miss disjI1 [OF par], of written3] miss par
  show ?thesis by simp
qed

section \<open>The write path\<close>

subsection \<open>Blocks after a block was put\<close>

lemma blk_put_same:
  assumes "i < length ds" and "length data = block_size st"
    and "s * block_size st + block_size st \<le> length (ds ! i)"
  shows "blk st (put_blk st ds i (s * block_size st) data) i s = data"
  unfolding blk_def using assms by (rule put_blk_same)

lemma blk_put_other_stripe:
  assumes i: "i < length ds" and data: "length data = block_size st"
    and fit: "s * block_size st + block_size st \<le> length (ds ! i)"
    and ne: "s0 \<noteq> s"
  shows "blk st (put_blk st ds i (s * block_size st) data) i s0 = blk st ds i s0"
proof (cases "s0 < s")
  case True
  then have "Suc s0 * block_size st \<le> s * block_size st"
    by (intro mult_le_mono1) simp
  then have "s0 * block_size st + block_size st \<le> s * block_size st" by simp
  with i show ?thesis unfolding blk_def using fit by (rule put_blk_before)
next
  case False
  with ne have "Suc s * block_size st \<le> s0 * block_size st"
    by (intro mult_le_mono1) simp
  then have "s * block_size st + block_size st \<le> s0 * block_size st" by simp
  with i show ?thesis unfolding blk_def using data fit by (rule put_blk_after)
qed

lemma blk_put_other_slot:
  assumes "j \<noteq> i"
  shows "blk st (put_blk st ds i phys data) j s0 = blk st ds j s0"
  using assms by (simp add: blk_def put_blk_other)

lemma blk_cong:
  assumes "ds' ! i = ds ! i"
  shows "blk st ds' i s = blk st ds i s"
  using assms by (simp add: blk_def)

subsection \<open>Data slots of a stripe\<close>

lemma data_disk_inj: "data_disk p d = data_disk p d' \<Longrightarrow> d = d'"
  by (auto simp: data_disk_def split: if_splits)

lemma data_disk_below: "n \<le> p \<Longrightarrow> map (data_disk p) [0..<n] = [0..<n]"
  by (induction n) (simp_all add: data_disk_def)

lemma filter_neq_below: "n \<le> p \<Longrightarrow> filter (\<lambda>i. i \<noteq> p) [0..<n] = [0..<n]"
  by (induction n) simp_all

lemma filter_neq_parity:
  "p < n \<Longrightarrow> filter (\<lambda>i. i \<noteq> p) [0..<n] = map (data_disk p) [0..<n - 1]"
proof (induction n)
  case 0
  then show ?case by simp
next
  case (Suc n)
  show ?case
  proof (cases "p = n")
    case True
    then show ?thesis by (simp add: filter_neq_below data_disk_below)
  next
    case False
    with Suc.prems have pn: "p < n" by simp
    then obtain n' where n': "n = Suc n'" by (cases n) auto
    with pn have dd: "data_disk p n' = n" by (simp add: data_disk_def)
    have "filter (\<lambda>i. i \<noteq> p) [0..<Suc n] = filter (\<lambda>i. i \<noteq> p) [0..<n] @ [n]"
      using False by simp
    also have "filter (\<lambda>i. i \<noteq> p) [0..<n] = map (data_disk p) [0..<n - 1]"
      using pn by (rule Suc.IH)
    also have "map (data_disk p) [0..<n - 1] @ [n] = map (data_disk p) [0..<Suc n - 1]"
      unfolding n' using dd n' by simp
    finally show ?thesis .
  qed
qed

lemma xor_blocks_split2:
  assumes p: "p < n" and d: "d < n" and pd: "p \<noteq> d"
    and len: "\<forall>i \<in> set [0..<n]. length (f i) = block_size st"
  shows "xor_blocks st (map f [0..<n])
           = xor_block (f p) (xor_block (f d)
               (xor_blocks st (map f (filter (\<lambda>i. i \<noteq> p \<and> i \<noteq> d) [0..<n]))))"
proof -
  let ?notp = "filter (\<lambda>i. i \<noteq> p) [0..<n]"
  have e1: "xor_blocks st (map f [0..<n]) = xor_block (f p) (xor_blocks st (map f ?notp))"
  proof (rule xor_blocks_split)
    show "distinct [0..<n]" by simp
    show "p \<in> set [0..<n]" using p by simp
    show "\<forall>i \<in> set [0..<n]. length (f i) = block_size st" by (rule len)
  qed
  have e2: "xor_blocks st (map f ?notp)
      = xor_block (f d) (xor_blocks st (map f (filter (\<lambda>i. i \<noteq> d) ?notp)))"
  proof (rule xor_blocks_split)
    show "distinct ?notp" by simp
    show "d \<in> set ?notp" using d pd by simp
    show "\<forall>i \<in> set ?notp. length (f i) = block_size st" using len by simp
  qed
  have ff: "filter (\<lambda>i. i \<noteq> d) ?notp = filter (\<lambda>i. i \<noteq> p \<and> i \<noteq> d) [0..<n]"
    by simp
  show ?thesis unfolding e1 e2 ff ..
qed

lemma xor_block_zero_left:
  assumes "length a = block_size st"
  shows "xor_block (zero_block st) a = a"
proof -
  have "xor_block (zero_block st) a = xor_block a (replicate (block_size st) 0)"
    unfolding zero_block_def by (rule xor_block_commute)
  also have "\<dots> = a" using assms by (intro xor_block_zero_right) simp
  finally show ?thesis .
qed

lemma concat_chunks:
  "concat (map (\<lambda>d. take b (drop (d * b) buf)) [0..<n]) = take (n * b) buf"
proof (induction n)
  case 0
  then show ?case by simp
next
  case (Suc n)
  have "Suc n * b = n * b + b" by simp
  then have "take (Suc n * b) buf = take (n * b) buf @ take b (drop (n * b) buf)"
    by (simp only: take_add)
  with Suc show ?case by simp
qed

subsection \<open>Placement inside a stripe\<close>

lemma stripe_of_block:
  assumes B: "0 < block_size st" and j: "j < num_devices st - 1"
  shows "stripe st (s * stripe_span st + j * block_size st) = s"
    and "pos st (s * stripe_span st + j * block_size st) = j"
proof -
  have "s * stripe_span st + j * block_size st = (s * (num_devices st - 1) + j) * block_size st"
    by (simp add: stripe_span_def algebra_simps)
  with B have L: "logical_block st (s * stripe_span st + j * block_size st)
      = s * (num_devices st - 1) + j"
    by (simp add: logical_block_def)
  from j show "stripe st (s * stripe_span st + j * block_size st) = s"
    unfolding stripe_def L by simp
  from j show "pos st (s * stripe_span st + j * block_size st) = j"
    unfolding pos_def L by simp
qed

lemma full_stripe_phys:
  assumes B: "0 < block_size st" and N: "2 \<le> num_devices st" and off: "offset < 2 ^ 64"
  shows "phys_offset st (offset div stripe_span st) = offset div stripe_span st * block_size st"
proof -
  let ?s = "offset div stripe_span st"
  from N have "1 \<le> num_devices st - 1" by simp
  then have "1 * block_size st \<le> (num_devices st - 1) * block_size st"
    by (rule mult_le_mono1)
  then have "block_size st \<le> stripe_span st"
    by (simp add: stripe_span_def)
  then have "?s * block_size st \<le> ?s * stripe_span st" by (rule mult_le_mono2)
  also have "\<dots> \<le> offset" by simp
  finally have "?s * block_size st < 2 ^ 64" using off by simp
  then show ?thesis by (simp add: phys_offset_def)
qed

subsection \<open>The full-stripe path\<close>

lemma data_disk_inv: "(if data_disk p d < p then data_disk p d else data_disk p d - 1) = d"
  by (simp add: data_disk_def)

lemma length_chunk_le: "length (chunk st buffer d) \<le> block_size st"
  by (simp add: chunk_def)

lemma length_chunk:
  assumes "d < n" and "n * block_size st \<le> length buffer"
  shows "length (chunk st buffer d) = block_size st"
proof -
  from assms(1) have "Suc d * block_size st \<le> n * block_size st"
    by (intro mult_le_mono1) simp
  with assms(2) have "d * block_size st + block_size st \<le> length buffer" by simp
  then show ?thesis by (simp add: chunk_def)
qed

lemma full_stripe_data_Cons:
  "full_stripe_data st ds buffer p phys (d # rest) acc =
     (if \<not> dev_missing st ! data_disk p d then
        (case pwrite_block st ds (data_disk p d) (chunk st buffer d) phys
                ''pwrite full stripe data'' of
           (Inl e, ds') \<Rightarrow> (Inl e, ds')
         | (Inr u, ds') \<Rightarrow>
             full_stripe_data st ds' buffer p phys rest (xor_block acc (chunk st buffer d)))
      else full_stripe_data st ds buffer p phys rest (xor_block acc (chunk st buffer d)))"
  unfolding chunk_def by (simp add: Let_def)

lemma full_stripe_data_ok:
  assumes B: "0 < block_size st"
  shows "distinct dsq \<Longrightarrow> length acc = block_size st \<Longrightarrow>
    \<forall>d \<in> set dsq. data_disk p d < length ds \<and> length (chunk st buffer d) = block_size st
       \<and> (\<not> dev_missing st ! data_disk p d \<longrightarrow> phys + block_size st \<le> length (ds ! data_disk p d)) \<Longrightarrow>
    \<exists>ds'. full_stripe_data st ds buffer p phys dsq acc
             = (Inr (xor_block acc (xor_blocks st (map (chunk st buffer) dsq))), ds')
        \<and> length ds' = length ds
        \<and> (\<forall>i < length ds. ds' ! i =
             (if \<not> dev_missing st ! i \<and> i \<in> data_disk p ` set dsq
              then take phys (ds ! i) @ chunk st buffer (if i < p then i else i - 1)
                     @ drop (phys + block_size st) (ds ! i)
              else ds ! i))"
proof (induction dsq arbitrary: ds acc)
  case Nil
  then show ?case by (simp add: xor_block_zero_right zero_block_def)
next
  case (Cons d rest)
  let ?i0 = "data_disk p d"
  let ?c = "chunk st buffer d"
  from Cons.prems have dist: "distinct rest" and dnotin: "d \<notin> set rest"
    and i0: "?i0 < length ds" and lc: "length ?c = block_size st"
    by simp_all
  have acc': "length (xor_block acc ?c) = block_size st"
    using Cons.prems(2) lc by simp
  have i0_notin: "?i0 \<notin> data_disk p ` set rest"
    using dnotin data_disk_inj [of p d] by auto
  have assoc: "xor_block (xor_block acc ?c) (xor_blocks st (map (chunk st buffer) rest))
      = xor_block acc (xor_blocks st (map (chunk st buffer) (d # rest)))"
    by (simp add: xor_block_assoc)
  show ?case
  proof (cases "dev_missing st ! ?i0")
    case True
    have hyp: "\<forall>d' \<in> set rest. data_disk p d' < length ds
        \<and> length (chunk st buffer d') = block_size st
        \<and> (\<not> dev_missing st ! data_disk p d' \<longrightarrow>
             phys + block_size st \<le> length (ds ! data_disk p d'))"
      using Cons.prems(3) by simp
    from Cons.IH [OF dist acc' hyp] obtain ds'
      where run: "full_stripe_data st ds buffer p phys rest (xor_block acc ?c)
          = (Inr (xor_block (xor_block acc ?c) (xor_blocks st (map (chunk st buffer) rest))), ds')"
        and l: "length ds' = length ds"
        and nth: "\<forall>i < length ds. ds' ! i =
             (if \<not> dev_missing st ! i \<and> i \<in> data_disk p ` set rest
              then take phys (ds ! i) @ chunk st buffer (if i < p then i else i - 1)
                     @ drop (phys + block_size st) (ds ! i)
              else ds ! i)"
      by blast
    have "full_stripe_data st ds buffer p phys (d # rest) acc
        = (Inr (xor_block acc (xor_blocks st (map (chunk st buffer) (d # rest)))), ds')"
      unfolding full_stripe_data_Cons using True run assoc by simp
    moreover have "\<forall>i < length ds. ds' ! i =
             (if \<not> dev_missing st ! i \<and> i \<in> data_disk p ` set (d # rest)
              then take phys (ds ! i) @ chunk st buffer (if i < p then i else i - 1)
                     @ drop (phys + block_size st) (ds ! i)
              else ds ! i)"
    proof (intro allI impI)
      fix i assume i: "i < length ds"
      have "(\<not> dev_missing st ! i \<and> i \<in> data_disk p ` set (d # rest))
          \<longleftrightarrow> (\<not> dev_missing st ! i \<and> i \<in> data_disk p ` set rest)"
        using True by auto
      with nth i show "ds' ! i =
             (if \<not> dev_missing st ! i \<and> i \<in> data_disk p ` set (d # rest)
              then take phys (ds ! i) @ chunk st buffer (if i < p then i else i - 1)
                     @ drop (phys + block_size st) (ds ! i)
              else ds ! i)"
        by simp
    qed
    ultimately show ?thesis using l by blast
  next
    case False
    with Cons.prems(3) have fit: "phys + block_size st \<le> length (ds ! ?i0)" by simp
    let ?ds1 = "put_blk st ds ?i0 phys ?c"
    have w: "pwrite_block st ds ?i0 ?c phys ''pwrite full stripe data'' = (Inr (), ?ds1)"
      using B lc fit by (simp add: pwrite_block_eq)
    have hyp: "\<forall>d' \<in> set rest. data_disk p d' < length ?ds1
        \<and> length (chunk st buffer d') = block_size st
        \<and> (\<not> dev_missing st ! data_disk p d' \<longrightarrow>
             phys + block_size st \<le> length (?ds1 ! data_disk p d'))"
      using Cons.prems(3) lc fit by (simp add: length_put_blk_nth)
    from Cons.IH [OF dist acc' hyp] obtain ds'
      where run: "full_stripe_data st ?ds1 buffer p phys rest (xor_block acc ?c)
          = (Inr (xor_block (xor_block acc ?c) (xor_blocks st (map (chunk st buffer) rest))), ds')"
        and l: "length ds' = length ?ds1"
        and nth: "\<forall>i < length ?ds1. ds' ! i =
             (if \<not> dev_missing st ! i \<and> i \<in> data_disk p ` set rest
              then take phys (?ds1 ! i) @ chunk st buffer (if i < p then i else i - 1)
                     @ drop (phys + block_size st) (?ds1 ! i)
              else ?ds1 ! i)"
      by blast
    have "full_stripe_data st ds buffer p phys (d # rest) acc
        = (Inr (xor_block acc (xor_blocks st (map (chunk st buffer) (d # rest)))), ds')"
      unfolding full_stripe_data_Cons using False w run assoc by simp
    moreover have "\<forall>i < length ds. ds' ! i =
             (if \<not> dev_missing st ! i \<and> i \<in> data_disk p ` set (d # rest)
              then take phys (ds ! i) @ chunk st buffer (if i < p then i else i - 1)
                     @ drop (phys + block_size st) (ds ! i)
              else ds ! i)"
    proof (intro allI impI)
      fix i assume i: "i < length ds"
      show "ds' ! i =
             (if \<not> dev_missing st ! i \<and> i \<in> data_disk p ` set (d # rest)
              then take phys (ds ! i) @ chunk st buffer (if i < p then i else i - 1)
                     @ drop (phys + block_size st) (ds ! i)
              else ds ! i)"
      proof (cases "i = ?i0")
        case True
        with False have cond: "\<not> dev_missing st ! i \<and> i \<in> data_disk p ` set (d # rest)"
          by simp
        from True nth i i0_notin have "ds' ! ?i0 = ?ds1 ! ?i0" by simp
        also have "\<dots> = take phys (ds ! ?i0) @ ?c @ drop (phys + block_size st) (ds ! ?i0)"
          using i0 by (simp add: put_blk_def)
        finally have "ds' ! ?i0 = take phys (ds ! ?i0)
            @ chunk st buffer (if ?i0 < p then ?i0 else ?i0 - 1)
            @ drop (phys + block_size st) (ds ! ?i0)"
          unfolding data_disk_inv .
        with cond show ?thesis unfolding True by (simp only: simp_thms if_True)
      next
        case ne: False
        then have same: "?ds1 ! i = ds ! i" by (simp add: put_blk_other)
        have "i \<in> data_disk p ` set (d # rest) \<longleftrightarrow> i \<in> data_disk p ` set rest"
          using ne by auto
        with nth i same show ?thesis by simp
      qed
    qed
    ultimately show ?thesis using l by simp
  qed
qed

lemma full_stripe_data_success:
  assumes B: "0 < block_size st"
  shows "full_stripe_data st ds buffer p phys dsq acc = (Inr par, ds') \<Longrightarrow>
    \<forall>d \<in> set dsq. \<not> dev_missing st ! data_disk p d \<Longrightarrow>
    \<forall>d \<in> set dsq. length (chunk st buffer d) = block_size st
       \<and> phys + block_size st \<le> length (ds ! data_disk p d)"
proof (induction dsq arbitrary: ds acc)
  case Nil
  then show ?case by simp
next
  case (Cons d rest)
  let ?i0 = "data_disk p d"
  let ?c = "chunk st buffer d"
  from Cons.prems(2) have pres: "\<not> dev_missing st ! ?i0"
    and rest: "\<forall>d \<in> set rest. \<not> dev_missing st ! data_disk p d"
    by simp_all
  note eq = pwrite_block_eq [OF B length_chunk_le [of st buffer d],
      of ds ?i0 phys "''pwrite full stripe data''"]
  show ?case
  proof (cases "length ?c = block_size st \<and> phys + block_size st \<le> length (ds ! ?i0)")
    case False
    with Cons.prems(1) pres eq show ?thesis
      unfolding full_stripe_data_Cons by (simp split: if_splits)
  next
    case True
    let ?ds1 = "put_blk st ds ?i0 phys ?c"
    from True Cons.prems(1) pres eq
    have "full_stripe_data st ?ds1 buffer p phys rest (xor_block acc ?c) = (Inr par, ds')"
      unfolding full_stripe_data_Cons by simp
    from Cons.IH [OF this rest]
    have "\<forall>d' \<in> set rest. length (chunk st buffer d') = block_size st
       \<and> phys + block_size st \<le> length (?ds1 ! data_disk p d')" .
    moreover have "length (?ds1 ! j) = length (ds ! j)" for j
      using True by (intro length_put_blk_nth) simp_all
    ultimately show ?thesis using True by simp
  qed
qed

lemma full_stripe_image_nth:
  assumes "i < num_devices st"
  shows "full_stripe_image st ds buffer s ! i =
     (if dev_missing st ! i then ds ! i
      else take (s * block_size st) (ds ! i)
           @ (if i = parity_disk st s
              then xor_blocks st (map (chunk st buffer) [0..<num_devices st - 1])
              else chunk st buffer (if i < parity_disk st s then i else i - 1))
           @ drop (s * block_size st + block_size st) (ds ! i))"
  using assms by (simp add: full_stripe_image_def)

lemma length_full_stripe_image [simp]:
  "length (full_stripe_image st ds buffer s) = num_devices st"
  by (simp add: full_stripe_image_def)

lemma data_slots:
  assumes "p < n" and "i < n" and "i \<noteq> p"
  shows "i \<in> data_disk p ` set [0..<n - 1]"
proof -
  from assms have "i \<in> set (filter (\<lambda>i. i \<noteq> p) [0..<n])" by simp
  then have "i \<in> set (map (data_disk p) [0..<n - 1])"
    using assms(1) by (simp only: filter_neq_parity)
  then show ?thesis by simp
qed

lemma parity_not_data: "p \<notin> data_disk p ` A"
  by (auto simp: data_disk_def)

lemma length_xor_chunks:
  assumes "\<forall>d < n. length (chunk st buffer d) = block_size st"
  shows "length (xor_blocks st (map (chunk st buffer) [0..<n])) = block_size st"
  using assms by (intro length_xor_blocks) simp

lemma full_stripe_write_ok:
  assumes B: "0 < block_size st" and N: "2 \<le> num_devices st"
    and lds: "length ds = num_devices st" and off: "offset < 2 ^ 64"
    and chunks: "\<forall>d < num_devices st - 1. length (chunk st buffer d) = block_size st"
    and fits: "\<forall>i < num_devices st. \<not> dev_missing st ! i \<longrightarrow>
        offset div stripe_span st * block_size st + block_size st \<le> length (ds ! i)"
    and pres: "\<not> dev_missing st ! parity_disk st (offset div stripe_span st)"
  shows "full_stripe_write st ds buffer offset
           = (Inr (), full_stripe_image st ds buffer (offset div stripe_span st))"
proof -
  let ?s = "offset div stripe_span st"
  let ?p = "parity_disk st ?s"
  let ?phys = "?s * block_size st"
  let ?X = "xor_blocks st (map (chunk st buffer) [0..<num_devices st - 1])"
  from N have p: "?p < num_devices st" by (intro parity_disk_less) simp
  have phys: "phys_offset st ?s = ?phys" using B N off by (rule full_stripe_phys)
  have lX: "length ?X = block_size st" using chunks by (rule length_xor_chunks)
  have hyp: "\<forall>d \<in> set [0..<num_devices st - 1]. data_disk ?p d < length ds
       \<and> length (chunk st buffer d) = block_size st
       \<and> (\<not> dev_missing st ! data_disk ?p d \<longrightarrow>
            ?phys + block_size st \<le> length (ds ! data_disk ?p d))"
  proof
    fix d assume "d \<in> set [0..<num_devices st - 1]"
    then have d: "d < num_devices st - 1" by simp
    then have "data_disk ?p d < num_devices st" by (rule data_disk_less)
    with d chunks fits lds show "data_disk ?p d < length ds
       \<and> length (chunk st buffer d) = block_size st
       \<and> (\<not> dev_missing st ! data_disk ?p d \<longrightarrow>
            ?phys + block_size st \<le> length (ds ! data_disk ?p d))"
      by simp
  qed
  have "distinct [0..<num_devices st - 1]" by simp
  from full_stripe_data_ok [OF B this length_zero_block hyp]
  obtain ds1 where run: "full_stripe_data st ds buffer ?p ?phys [0..<num_devices st - 1]
        (zero_block st) = (Inr (xor_block (zero_block st) ?X), ds1)"
    and l1: "length ds1 = length ds"
    and nth: "\<forall>i < length ds. ds1 ! i =
             (if \<not> dev_missing st ! i \<and> i \<in> data_disk ?p ` set [0..<num_devices st - 1]
              then take ?phys (ds ! i) @ chunk st buffer (if i < ?p then i else i - 1)
                     @ drop (?phys + block_size st) (ds ! i)
              else ds ! i)"
    by blast
  have run': "full_stripe_data st ds buffer ?p ?phys [0..<num_devices st - 1] (zero_block st)
      = (Inr ?X, ds1)"
    using run lX by (simp add: xor_block_zero_left)
  have "?p \<notin> data_disk ?p ` set [0..<num_devices st - 1]"
    by (rule parity_not_data)
  with nth p lds have p1: "ds1 ! ?p = ds ! ?p" by simp
  with fits p pres have "?phys + block_size st \<le> length (ds1 ! ?p)" by simp
  with B lX have w: "pwrite_block st ds1 ?p ?X ?phys ''pwrite full stripe parity''
      = (Inr (), put_blk st ds1 ?p ?phys ?X)"
    by (simp add: pwrite_block_eq)
  have res: "full_stripe_write st ds buffer offset = (Inr (), put_blk st ds1 ?p ?phys ?X)"
    unfolding full_stripe_write_def Let_def phys using run' pres w by simp
  have "put_blk st ds1 ?p ?phys ?X = full_stripe_image st ds buffer ?s"
  proof (rule nth_equalityI)
    show "length (put_blk st ds1 ?p ?phys ?X) = length (full_stripe_image st ds buffer ?s)"
      using l1 lds by simp
    fix i assume "i < length (put_blk st ds1 ?p ?phys ?X)"
    with l1 lds have i: "i < num_devices st" by simp
    show "put_blk st ds1 ?p ?phys ?X ! i = full_stripe_image st ds buffer ?s ! i"
    proof (cases "i = ?p")
      case True
      have "put_blk st ds1 ?p ?phys ?X ! ?p
          = take ?phys (ds ! ?p) @ ?X @ drop (?phys + block_size st) (ds ! ?p)"
        using p l1 lds p1 by (simp add: put_blk_def)
      also have "\<dots> = full_stripe_image st ds buffer ?s ! ?p"
        using pres by (simp add: full_stripe_image_nth [OF p])
      finally show ?thesis unfolding True .
    next
      case False
      then have "put_blk st ds1 ?p ?phys ?X ! i = ds1 ! i" by (simp add: put_blk_other)
      moreover from p i False have "i \<in> data_disk ?p ` set [0..<num_devices st - 1]"
        by (rule data_slots)
      ultimately have "put_blk st ds1 ?p ?phys ?X ! i =
          (if \<not> dev_missing st ! i
           then take ?phys (ds ! i) @ chunk st buffer (if i < ?p then i else i - 1)
                  @ drop (?phys + block_size st) (ds ! i)
           else ds ! i)"
        using nth i lds by simp
      also have "\<dots> = full_stripe_image st ds buffer ?s ! i"
        using False by (simp add: full_stripe_image_nth [OF i])
      finally show ?thesis .
    qed
  qed
  with res show ?thesis by simp
qed

lemma full_stripe_write_refused:
  assumes "dev_missing st ! parity_disk st (offset div stripe_span st)"
  shows "\<exists>e ds'. full_stripe_write st ds buffer offset = (Inl e, ds')"
proof -
  let ?s = "offset div stripe_span st"
  show ?thesis
  proof (cases "full_stripe_data st ds buffer (parity_disk st ?s) (phys_offset st ?s)
      [0..<num_devices st - 1] (zero_block st)")
    case (Pair r ds1)
    with assms show ?thesis
      by (cases r) (simp_all add: full_stripe_write_def Let_def)
  qed
qed

lemma full_stripe_write_success:
  assumes B: "0 < block_size st" and N: "2 \<le> num_devices st"
    and lds: "length ds = num_devices st" and off: "offset < 2 ^ 64"
    and all: "\<forall>i < num_devices st. \<not> dev_missing st ! i"
    and run: "full_stripe_write st ds buffer offset = (Inr u, ds')"
  shows "(\<forall>d < num_devices st - 1. length (chunk st buffer d) = block_size st)
       \<and> (\<forall>i < num_devices st.
            offset div stripe_span st * block_size st + block_size st \<le> length (ds ! i))
       \<and> ds' = full_stripe_image st ds buffer (offset div stripe_span st)"
proof -
  let ?s = "offset div stripe_span st"
  let ?p = "parity_disk st ?s"
  let ?phys = "?s * block_size st"
  let ?X = "xor_blocks st (map (chunk st buffer) [0..<num_devices st - 1])"
  from N have p: "?p < num_devices st" by (intro parity_disk_less) simp
  have phys: "phys_offset st ?s = ?phys" using B N off by (rule full_stripe_phys)
  obtain r ds1 where loop: "full_stripe_data st ds buffer ?p ?phys [0..<num_devices st - 1]
      (zero_block st) = (r, ds1)"
    by (cases "full_stripe_data st ds buffer ?p ?phys [0..<num_devices st - 1] (zero_block st)")
  from run loop obtain par where r: "r = Inr par"
    unfolding full_stripe_write_def Let_def phys by (cases r) simp_all
  have pres: "\<forall>d \<in> set [0..<num_devices st - 1]. \<not> dev_missing st ! data_disk ?p d"
  proof
    fix d assume "d \<in> set [0..<num_devices st - 1]"
    then have "data_disk ?p d < num_devices st" by (intro data_disk_less) simp
    with all show "\<not> dev_missing st ! data_disk ?p d" by simp
  qed
  from full_stripe_data_success [OF B loop [unfolded r] pres]
  have data: "\<forall>d \<in> set [0..<num_devices st - 1].
      length (chunk st buffer d) = block_size st
      \<and> ?phys + block_size st \<le> length (ds ! data_disk ?p d)" .
  then have chunks: "\<forall>d < num_devices st - 1. length (chunk st buffer d) = block_size st"
    by simp
  have data_fit: "?phys + block_size st \<le> length (ds ! i)" if "i < num_devices st" "i \<noteq> ?p" for i
  proof -
    from p that have "i \<in> data_disk ?p ` set [0..<num_devices st - 1]" by (rule data_slots)
    then obtain d where "d \<in> set [0..<num_devices st - 1]" "i = data_disk ?p d" by blast
    with data show ?thesis by simp
  qed
  have hyp: "\<forall>d \<in> set [0..<num_devices st - 1]. data_disk ?p d < length ds
       \<and> length (chunk st buffer d) = block_size st
       \<and> (\<not> dev_missing st ! data_disk ?p d \<longrightarrow>
            ?phys + block_size st \<le> length (ds ! data_disk ?p d))"
  proof
    fix d assume d: "d \<in> set [0..<num_devices st - 1]"
    then have "data_disk ?p d < num_devices st" by (intro data_disk_less) simp
    with d data lds show "data_disk ?p d < length ds
       \<and> length (chunk st buffer d) = block_size st
       \<and> (\<not> dev_missing st ! data_disk ?p d \<longrightarrow>
            ?phys + block_size st \<le> length (ds ! data_disk ?p d))"
      by simp
  qed
  have "distinct [0..<num_devices st - 1]" by simp
  from full_stripe_data_ok [OF B this length_zero_block hyp]
  obtain ds1' where run1: "full_stripe_data st ds buffer ?p ?phys [0..<num_devices st - 1]
        (zero_block st) = (Inr (xor_block (zero_block st) ?X), ds1')"
    and l1: "length ds1' = length ds"
    and nth: "\<forall>i < length ds. ds1' ! i =
             (if \<not> dev_missing st ! i \<and> i \<in> data_disk ?p ` set [0..<num_devices st - 1]
              then take ?phys (ds ! i) @ chunk st buffer (if i < ?p then i else i - 1)
                     @ drop (?phys + block_size st) (ds ! i)
              else ds ! i)"
    by blast
  have lX: "length ?X = block_size st" using chunks by (rule length_xor_chunks)
  from run1 loop r lX have par: "par = ?X" and ds1: "ds1 = ds1'"
    by (simp_all add: xor_block_zero_left)
  have "?p \<notin> data_disk ?p ` set [0..<num_devices st - 1]"
    by (rule parity_not_data)
  with nth p lds have p1: "ds1' ! ?p = ds ! ?p" by simp
  from all p have ppres: "\<not> dev_missing st ! ?p" by simp
  have "lX'": "length ?X \<le> block_size st" using lX by simp
  from run loop r par ds1 ppres
  have "pwrite_block st ds1' ?p ?X ?phys ''pwrite full stripe parity'' = (Inr u, ds')"
    unfolding full_stripe_write_def Let_def phys by simp
  then have "?phys + block_size st \<le> length (ds1' ! ?p)"
    unfolding pwrite_block_eq [OF B "lX'"] by (simp split: if_splits)
  with p1 have pfit: "?phys + block_size st \<le> length (ds ! ?p)" by simp
  have fits: "\<forall>i < num_devices st. ?phys + block_size st \<le> length (ds ! i)"
  proof (intro allI impI)
    fix i assume "i < num_devices st"
    then show "?phys + block_size st \<le> length (ds ! i)"
      using pfit data_fit by (cases "i = ?p") simp_all
  qed
  then have fits': "\<forall>i < num_devices st. \<not> dev_missing st ! i \<longrightarrow>
        ?phys + block_size st \<le> length (ds ! i)"
    by simp
  from full_stripe_write_ok [OF B N lds off chunks fits' ppres] run
  have "ds' = full_stripe_image st ds buffer ?s" by simp
  with chunks fits show ?thesis by simp
qed

subsection \<open>What a successful full-stripe step implies\<close>

lemma length_xor_blocks_le:
  "length (xor_blocks st bs) \<le> block_size st"
  "b \<in> set bs \<Longrightarrow> length (xor_blocks st bs) \<le> length b"
  by (induction bs) auto

lemma full_stripe_data_result:
  assumes B: "0 < block_size st"
  shows "full_stripe_data st ds buffer p phys dsq acc = (Inr par, ds') \<Longrightarrow>
    length acc \<le> block_size st \<Longrightarrow>
    par = xor_block acc (xor_blocks st (map (chunk st buffer) dsq))
    \<and> (\<forall>d \<in> set dsq. \<not> dev_missing st ! data_disk p d \<longrightarrow>
          length (chunk st buffer d) = block_size st
          \<and> phys + block_size st \<le> length (ds ! data_disk p d))"
proof (induction dsq arbitrary: ds acc)
  case Nil
  then show ?case by (simp add: xor_block_zero_right zero_block_def)
next
  case (Cons d rest)
  let ?i0 = "data_disk p d"
  let ?c = "chunk st buffer d"
  have acc': "length (xor_block acc ?c) \<le> block_size st"
    using Cons.prems(2) by simp
  have assoc: "xor_block (xor_block acc ?c) (xor_blocks st (map (chunk st buffer) rest))
      = xor_block acc (xor_blocks st (map (chunk st buffer) (d # rest)))"
    by (simp add: xor_block_assoc)
  show ?case
  proof (cases "dev_missing st ! ?i0")
    case True
    with Cons.prems(1)
    have "full_stripe_data st ds buffer p phys rest (xor_block acc ?c) = (Inr par, ds')"
      unfolding full_stripe_data_Cons by simp
    from Cons.IH [OF this acc'] True assoc show ?thesis by simp
  next
    case False
    obtain r ds1 where w: "pwrite_block st ds ?i0 ?c phys ''pwrite full stripe data'' = (r, ds1)"
      by (cases "pwrite_block st ds ?i0 ?c phys ''pwrite full stripe data''")
    from Cons.prems(1) False w obtain u where r: "r = Inr u"
      unfolding full_stripe_data_Cons by (cases r) simp_all
    note f = pwrite_block_InrD [OF B length_chunk_le w [unfolded r]]
    from Cons.prems(1) False w r
    have "full_stripe_data st ds1 buffer p phys rest (xor_block acc ?c) = (Inr par, ds')"
      unfolding full_stripe_data_Cons by simp
    from Cons.IH [OF this acc']
    have par: "par = xor_block (xor_block acc ?c) (xor_blocks st (map (chunk st buffer) rest))"
      and rest: "\<forall>d' \<in> set rest. \<not> dev_missing st ! data_disk p d' \<longrightarrow>
          length (chunk st buffer d') = block_size st
          \<and> phys + block_size st \<le> length (ds1 ! data_disk p d')"
      by blast+
    have "length (ds1 ! j) = length (ds ! j)" for j
      unfolding f(3) using f(1,2) by (rule length_put_blk_nth)
    with par rest f(1,2) assoc show ?thesis by simp
  qed
qed

lemma full_stripe_write_InrD:
  assumes B: "0 < block_size st" and N: "2 \<le> num_devices st"
    and lds: "length ds = num_devices st" and off: "offset < 2 ^ 64"
    and run: "full_stripe_write st ds buffer offset = (Inr u, ds')"
  shows "\<not> dev_missing st ! parity_disk st (offset div stripe_span st)"
    and "\<forall>d < num_devices st - 1. length (chunk st buffer d) = block_size st"
    and "\<forall>i < num_devices st. \<not> dev_missing st ! i \<longrightarrow>
            offset div stripe_span st * block_size st + block_size st \<le> length (ds ! i)"
    and "ds' = full_stripe_image st ds buffer (offset div stripe_span st)"
proof -
  let ?s = "offset div stripe_span st"
  let ?p = "parity_disk st ?s"
  let ?phys = "?s * block_size st"
  let ?n = "num_devices st"
  let ?X = "xor_blocks st (map (chunk st buffer) [0..<?n - 1])"
  from N have p: "?p < ?n" by (intro parity_disk_less) simp
  have phys: "phys_offset st ?s = ?phys" using B N off by (rule full_stripe_phys)
  obtain r ds1 where loop: "full_stripe_data st ds buffer ?p ?phys [0..<?n - 1]
      (zero_block st) = (r, ds1)"
    by (cases "full_stripe_data st ds buffer ?p ?phys [0..<?n - 1] (zero_block st)")
  from run loop obtain par where r: "r = Inr par"
    unfolding full_stripe_write_def Let_def phys by (cases r) simp_all
  from run loop r show ppres: "\<not> dev_missing st ! ?p"
    unfolding full_stripe_write_def Let_def phys by (auto split: if_splits)
  with run loop r
  have w: "pwrite_block st ds1 ?p par ?phys ''pwrite full stripe parity'' = (Inr u, ds')"
    unfolding full_stripe_write_def Let_def phys by simp
  have lz: "length (zero_block st) \<le> block_size st" by simp
  from full_stripe_data_result [OF B loop [unfolded r] lz]
  have par: "par = xor_block (zero_block st) ?X"
    and data: "\<forall>d \<in> set [0..<?n - 1]. \<not> dev_missing st ! data_disk ?p d \<longrightarrow>
        length (chunk st buffer d) = block_size st
        \<and> ?phys + block_size st \<le> length (ds ! data_disk ?p d)"
    by blast+
  have lpar: "length par \<le> block_size st" unfolding par by simp
  note f = pwrite_block_InrD [OF B lpar w]
  from f(1) par have "block_size st \<le> length ?X" by simp
  then have lX: "length ?X = block_size st"
    using length_xor_blocks_le(1) [of st "map (chunk st buffer) [0..<?n - 1]"] by simp
  show chunks: "\<forall>d < ?n - 1. length (chunk st buffer d) = block_size st"
  proof (intro allI impI)
    fix d assume "d < ?n - 1"
    then have "chunk st buffer d \<in> set (map (chunk st buffer) [0..<?n - 1])" by simp
    then have "length ?X \<le> length (chunk st buffer d)" by (rule length_xor_blocks_le(2))
    with lX length_chunk_le [of st buffer d]
    show "length (chunk st buffer d) = block_size st" by simp
  qed
  have hyp: "\<forall>d \<in> set [0..<?n - 1]. data_disk ?p d < length ds
       \<and> length (chunk st buffer d) = block_size st
       \<and> (\<not> dev_missing st ! data_disk ?p d \<longrightarrow>
            ?phys + block_size st \<le> length (ds ! data_disk ?p d))"
  proof
    fix d assume d: "d \<in> set [0..<?n - 1]"
    then have "data_disk ?p d < ?n" by (intro data_disk_less) simp
    with d data chunks lds show "data_disk ?p d < length ds
       \<and> length (chunk st buffer d) = block_size st
       \<and> (\<not> dev_missing st ! data_disk ?p d \<longrightarrow>
            ?phys + block_size st \<le> length (ds ! data_disk ?p d))"
      by simp
  qed
  have "distinct [0..<?n - 1]" by simp
  from full_stripe_data_ok [OF B this length_zero_block hyp]
  obtain ds1' where run1: "full_stripe_data st ds buffer ?p ?phys [0..<?n - 1]
        (zero_block st) = (Inr (xor_block (zero_block st) ?X), ds1')"
    and nth: "\<forall>i < length ds. ds1' ! i =
             (if \<not> dev_missing st ! i \<and> i \<in> data_disk ?p ` set [0..<?n - 1]
              then take ?phys (ds ! i) @ chunk st buffer (if i < ?p then i else i - 1)
                     @ drop (?phys + block_size st) (ds ! i)
              else ds ! i)"
    by blast
  from run1 loop have ds1: "ds1 = ds1'" by simp
  have "?p \<notin> data_disk ?p ` set [0..<?n - 1]" by (rule parity_not_data)
  with nth p lds have "ds1' ! ?p = ds ! ?p" by simp
  with f(2) ds1 have pfit: "?phys + block_size st \<le> length (ds ! ?p)" by simp
  show fits: "\<forall>i < ?n. \<not> dev_missing st ! i \<longrightarrow> ?phys + block_size st \<le> length (ds ! i)"
  proof (intro allI impI)
    fix i assume i: "i < ?n" and pres: "\<not> dev_missing st ! i"
    show "?phys + block_size st \<le> length (ds ! i)"
    proof (cases "i = ?p")
      case True
      with pfit show ?thesis by simp
    next
      case False
      with p i have "i \<in> data_disk ?p ` set [0..<?n - 1]" by (intro data_slots)
      then obtain d where "d \<in> set [0..<?n - 1]" "i = data_disk ?p d" by blast
      with data pres show ?thesis by simp
    qed
  qed
  from full_stripe_write_ok [OF B N lds off chunks fits ppres] run
  show "ds' = full_stripe_image st ds buffer ?s" by simp
qed

subsection \<open>The disks after a full-stripe write\<close>

lemma parity_ok_cong:
  assumes "\<forall>i < num_devices st. blk st ds' i s = blk st ds i s"
    and "\<forall>i < num_devices st. length (ds' ! i) = length (ds ! i)"
    and "parity_ok st ds s"
  shows "parity_ok st ds' s"
proof -
  have "map (\<lambda>i. blk st ds' i s) [0..<num_devices st]
      = map (\<lambda>i. blk st ds i s) [0..<num_devices st]"
    using assms(1) by (intro map_cong refl) simp
  then have "xor_blocks st (map (\<lambda>i. blk st ds' i s) [0..<num_devices st])
      = xor_blocks st (map (\<lambda>i. blk st ds i s) [0..<num_devices st])"
    by (rule arg_cong)
  with assms(2,3) show ?thesis by (simp add: parity_ok_def)
qed

lemma length_incoming:
  assumes p: "parity_disk st s < num_devices st" and i: "i < num_devices st"
    and chunks: "\<forall>d < num_devices st - 1. length (chunk st buffer d) = block_size st"
  shows "length (incoming st buffer s i) = block_size st"
proof (cases "i = parity_disk st s")
  case True
  with chunks show ?thesis by (simp add: incoming_def length_xor_chunks)
next
  case False
  with p i have "(if i < parity_disk st s then i else i - 1) < num_devices st - 1" by auto
  with chunks False show ?thesis by (simp add: incoming_def)
qed

lemma full_stripe_image_put:
  assumes i: "i < num_devices st" and lds: "length ds = num_devices st"
  shows "full_stripe_image st ds buffer s ! i =
     (if dev_missing st ! i then ds ! i
      else put_blk st ds i (s * block_size st) (incoming st buffer s i) ! i)"
  using assms by (simp add: full_stripe_image_nth put_blk_def incoming_def)

lemma image_length_nth:
  assumes i: "i < num_devices st" and lds: "length ds = num_devices st"
    and p: "parity_disk st s < num_devices st"
    and chunks: "\<forall>d < num_devices st - 1. length (chunk st buffer d) = block_size st"
    and fits: "\<forall>i < num_devices st. \<not> dev_missing st ! i \<longrightarrow>
        s * block_size st + block_size st \<le> length (ds ! i)"
  shows "length (full_stripe_image st ds buffer s ! i) = length (ds ! i)"
proof (cases "dev_missing st ! i")
  case True
  with i lds show ?thesis by (simp add: full_stripe_image_put)
next
  case False
  with fits i have "s * block_size st + block_size st \<le> length (ds ! i)" by simp
  with length_incoming [OF p i chunks]
  have "length (put_blk st ds i (s * block_size st) (incoming st buffer s i) ! i)
      = length (ds ! i)"
    by (rule length_put_blk_nth)
  with False i lds show ?thesis by (simp add: full_stripe_image_put)
qed

lemma image_blk_same:
  assumes i: "i < num_devices st" and lds: "length ds = num_devices st"
    and p: "parity_disk st s < num_devices st"
    and chunks: "\<forall>d < num_devices st - 1. length (chunk st buffer d) = block_size st"
    and fit: "s * block_size st + block_size st \<le> length (ds ! i)"
    and pres: "\<not> dev_missing st ! i"
  shows "blk st (full_stripe_image st ds buffer s) i s = incoming st buffer s i"
proof -
  let ?put = "put_blk st ds i (s * block_size st) (incoming st buffer s i)"
  from pres i lds have "full_stripe_image st ds buffer s ! i = ?put ! i"
    by (simp add: full_stripe_image_put)
  then have "blk st (full_stripe_image st ds buffer s) i s = blk st ?put i s"
    by (rule blk_cong)
  also have "\<dots> = incoming st buffer s i"
    using i lds length_incoming [OF p i chunks] fit by (intro blk_put_same) simp_all
  finally show ?thesis .
qed

lemma image_blk_other:
  assumes i: "i < num_devices st" and lds: "length ds = num_devices st"
    and p: "parity_disk st s < num_devices st"
    and chunks: "\<forall>d < num_devices st - 1. length (chunk st buffer d) = block_size st"
    and fits: "\<forall>i < num_devices st. \<not> dev_missing st ! i \<longrightarrow>
        s * block_size st + block_size st \<le> length (ds ! i)"
    and ne: "s0 \<noteq> s"
  shows "blk st (full_stripe_image st ds buffer s) i s0 = blk st ds i s0"
proof (cases "dev_missing st ! i")
  case True
  with i lds have "full_stripe_image st ds buffer s ! i = ds ! i"
    by (simp add: full_stripe_image_put)
  then show ?thesis by (rule blk_cong)
next
  case False
  let ?put = "put_blk st ds i (s * block_size st) (incoming st buffer s i)"
  from False fits i have fit: "s * block_size st + block_size st \<le> length (ds ! i)" by simp
  from False i lds have "full_stripe_image st ds buffer s ! i = ?put ! i"
    by (simp add: full_stripe_image_put)
  then have "blk st (full_stripe_image st ds buffer s) i s0 = blk st ?put i s0"
    by (rule blk_cong)
  also have "\<dots> = blk st ds i s0"
    using i lds length_incoming [OF p i chunks] fit ne by (intro blk_put_other_stripe) simp_all
  finally show ?thesis .
qed

lemma image_parity_keep:
  assumes lds: "length ds = num_devices st"
    and p: "parity_disk st s < num_devices st"
    and chunks: "\<forall>d < num_devices st - 1. length (chunk st buffer d) = block_size st"
    and fits: "\<forall>i < num_devices st. \<not> dev_missing st ! i \<longrightarrow>
        s * block_size st + block_size st \<le> length (ds ! i)"
    and ne: "s0 \<noteq> s" and par: "parity_ok st ds s0"
  shows "parity_ok st (full_stripe_image st ds buffer s) s0"
proof (rule parity_ok_cong [OF _ _ par])
  show "\<forall>i < num_devices st. blk st (full_stripe_image st ds buffer s) i s0 = blk st ds i s0"
    using lds p chunks fits ne by (simp add: image_blk_other)
  show "\<forall>i < num_devices st. length (full_stripe_image st ds buffer s ! i) = length (ds ! i)"
    using lds p chunks fits by (simp add: image_length_nth)
qed

lemma incoming_data:
  assumes "d < num_devices st - 1"
  shows "incoming st buffer s (data_disk (parity_disk st s) d) = chunk st buffer d"
  using data_disk_neq [of "parity_disk st s" d] data_disk_inv [of "parity_disk st s" d]
  by (simp add: incoming_def)

lemma image_parity_ok:
  assumes lds: "length ds = num_devices st"
    and p: "parity_disk st s < num_devices st"
    and chunks: "\<forall>d < num_devices st - 1. length (chunk st buffer d) = block_size st"
    and fits: "\<forall>i < num_devices st. s * block_size st + block_size st \<le> length (ds ! i)"
    and all: "\<forall>i < num_devices st. \<not> dev_missing st ! i"
  shows "parity_ok st (full_stripe_image st ds buffer s) s"
proof -
  let ?im = "full_stripe_image st ds buffer s"
  let ?p = "parity_disk st s"
  let ?n = "num_devices st"
  let ?X = "xor_blocks st (map (chunk st buffer) [0..<?n - 1])"
  have fits': "\<forall>i < ?n. \<not> dev_missing st ! i \<longrightarrow>
        s * block_size st + block_size st \<le> length (ds ! i)"
    using fits by simp
  have lens: "\<forall>i \<in> set [0..<?n]. s * block_size st + block_size st \<le> length (?im ! i)"
    using lds p chunks fits fits' by (simp add: image_length_nth)
  have same: "blk st ?im i s = incoming st buffer s i" if "i < ?n" for i
    using that lds p chunks fits all by (intro image_blk_same) simp_all
  have "map (\<lambda>i. blk st ?im i s) [0..<?n] = map (incoming st buffer s) [0..<?n]"
    using same by (intro map_cong refl) simp
  then have "xor_blocks st (map (\<lambda>i. blk st ?im i s) [0..<?n])
      = xor_blocks st (map (incoming st buffer s) [0..<?n])"
    by (rule arg_cong)
  also have "\<dots> = xor_block (incoming st buffer s ?p)
      (xor_blocks st (map (incoming st buffer s) (filter (\<lambda>i. i \<noteq> ?p) [0..<?n])))"
  proof (rule xor_blocks_split)
    show "distinct [0..<?n]" by simp
    show "?p \<in> set [0..<?n]" using p by simp
    show "\<forall>i \<in> set [0..<?n]. length (incoming st buffer s i) = block_size st"
      using p chunks by (simp add: length_incoming)
  qed
  also have "map (incoming st buffer s) (filter (\<lambda>i. i \<noteq> ?p) [0..<?n])
      = map (chunk st buffer) [0..<?n - 1]"
    unfolding filter_neq_parity [OF p] by (simp add: incoming_data)
  also have "incoming st buffer s ?p = ?X" by (simp add: incoming_def)
  also have "xor_block ?X ?X = zero_block st"
    using chunks by (simp add: xor_block_self length_xor_chunks zero_block_def)
  finally have "xor_blocks st (map (\<lambda>i. blk st ?im i s) [0..<?n]) = zero_block st" .
  with lens show ?thesis unfolding parity_ok_def by blast
qed

subsection \<open>The loop of xmp_write\<close>

lemma xmp_write_loop_done: "xmp_write_loop st ds buffer 0 offset = Some (Inr (), ds)"
  by (subst xmp_write_loop.simps) simp

lemma block_le_span:
  assumes "2 \<le> num_devices st"
  shows "block_size st \<le> stripe_span st"
proof -
  from assms have "1 \<le> num_devices st - 1" by simp
  then have "1 * block_size st \<le> (num_devices st - 1) * block_size st"
    by (rule mult_le_mono1)
  then show ?thesis by (simp add: stripe_span_def)
qed

lemma xmp_write_loop_full:
  assumes B: "0 < block_size st" and N: "2 \<le> num_devices st"
    and al: "offset mod stripe_span st = 0" and len: "stripe_span st \<le> len"
  shows "xmp_write_loop st ds buffer len offset =
           (case full_stripe_write st ds buffer offset of
              (Inl e, ds') \<Rightarrow> Some (Inl e, ds')
            | (Inr u, ds') \<Rightarrow>
                xmp_write_loop st ds' (drop (stripe_span st) buffer) (len - stripe_span st)
                  ((offset + stripe_span st) mod 2 ^ 64))"
proof -
  from block_le_span [OF N] B len have "0 < len" by simp
  with B N al len show ?thesis
    by (subst xmp_write_loop.simps) simp
qed

lemma derived_dev_missing_update [simp]:
  "zero_block (st\<lparr>dev_missing := x\<rparr>) = zero_block st"
  "xor_blocks (st\<lparr>dev_missing := x\<rparr>) bs = xor_blocks st bs"
  "num_stripes (st\<lparr>dev_missing := x\<rparr>) = num_stripes st"
  "chunk (st\<lparr>dev_missing := x\<rparr>) buffer d = chunk st buffer d"
  "parity_ok (st\<lparr>dev_missing := x\<rparr>) ds s = parity_ok st ds s"
  by (simp_all add: zero_block_def xor_blocks_def num_stripes_def chunk_def parity_ok_def)

subsection \<open>Requests of one stripe\<close>

lemma xmp_write_one_stripe:
  assumes B: "0 < block_size st" and N: "2 \<le> num_devices st"
    and al: "offset mod stripe_span st = 0"
  shows "xmp_write st ds buf (stripe_span st) offset =
           (case full_stripe_write st ds buf offset of
              (Inl e, ds') \<Rightarrow> Some (Inl e, ds')
            | (Inr u, ds') \<Rightarrow> Some (Inr (), ds'))"
proof -
  obtain r ds' where w: "full_stripe_write st ds buf offset = (r, ds')"
    by (cases "full_stripe_write st ds buf offset")
  have "stripe_span st \<le> stripe_span st" by simp
  from xmp_write_loop_full [OF B N al this, of ds buf] w show ?thesis
    by (cases r) (simp_all add: xmp_write_def xmp_write_loop_done)
qed

lemma xmp_read_one_stripe:
  assumes B: "0 < block_size st" and N: "3 \<le> num_devices st"
    and span32: "stripe_span st < 2 ^ 32"
    and one: "\<forall>i \<in> set [0..<num_devices st]. dev_missing st ! i \<longleftrightarrow> i = m"
    and rng: "s * stripe_span st + stripe_span st \<le> 2 ^ 64"
    and fits: "\<forall>i < num_devices st. i \<noteq> m \<longrightarrow>
        s * block_size st + block_size st \<le> length (ds ! i)"
    and data: "\<forall>j < num_devices st - 1.
        delivered st ds (s * stripe_span st + j * block_size st) = chunk st buf j"
    and buf: "length buf = stripe_span st"
  shows "xmp_read st ds (stripe_span st) (s * stripe_span st) = Some (Inr buf, ds)"
proof -
  let ?off = "s * stripe_span st"
  let ?k = "num_devices st - 1"
  from N have N2: "2 \<le> num_devices st" by simp
  have span: "stripe_span st = ?k * block_size st" by (simp add: stripe_span_def)
  have each: "read_block st ds (?off + j * block_size st) = (Inr (chunk st buf j), ds)"
    if j: "j < ?k" for j
  proof -
    let ?o = "?off + j * block_size st"
    from j have "Suc j * block_size st \<le> ?k * block_size st" by (intro mult_le_mono1) simp
    with rng span B have o64: "?o < 2 ^ 64" by simp
    have sp: "stripe st ?o = s" using B j by (rule stripe_of_block)
    have fits': "\<forall>i < num_devices st. i \<noteq> m \<longrightarrow>
        stripe st ?o * block_size st + block_size st \<le> length (ds ! i)"
      using fits by (simp only: sp)
    have "read_block st ds ?o = (Inr (delivered st ds ?o), ds)"
      using B N o64 one fits' by (rule read_block_delivered)
    with data j show ?thesis by simp
  qed
  have "?k * block_size st < 2 ^ 32" using span32 span by simp
  moreover have "?off + ?k * block_size st \<le> 2 ^ 64" using rng span by simp
  ultimately have "xmp_read_loop st ds [] (?k * block_size st) ?off
      = Some (Inr ([] @ concat (map (chunk st buf) [0..<?k])), ds)"
    using B N2 each by (intro xmp_read_loop_blocks) simp_all
  moreover have "chunk st buf = (\<lambda>d. take (block_size st) (drop (d * block_size st) buf))"
    by (rule ext) (simp add: chunk_def)
  then have "concat (map (chunk st buf) [0..<?k]) = buf"
    using concat_chunks [of "block_size st" buf ?k] buf span by simp
  ultimately show ?thesis by (simp add: xmp_read_def span)
qed

lemma delivered_ignores_missing:
  assumes N: "3 \<le> num_devices st"
    and one: "\<forall>i \<in> set [0..<num_devices st]. dev_missing st ! i \<longleftrightarrow> i = m"
  shows "delivered st (ds[m := x]) offset = delivered st ds offset"
proof -
  let ?s = "stripe st offset"
  let ?p = "parity_disk st ?s"
  let ?d = "data_disk ?p (pos st offset)"
  let ?keep = "filter (\<lambda>i. i \<noteq> ?p \<and> i \<noteq> ?d) [0..<num_devices st]"
  from N have d: "?d < num_devices st" by (intro data_disk_less pos_less) simp
  have other: "blk st (ds[m := x]) i ?s = blk st ds i ?s" if "i \<noteq> m" for i
    using that by (intro blk_cong) simp
  show ?thesis
  proof (cases "?d = m")
    case False
    with one d have "\<not> dev_missing st ! ?d" by simp
    with False other show ?thesis by (simp add: delivered_def Let_def)
  next
    case True
    have "?d \<noteq> ?p" by (rule data_disk_neq)
    with True have pm: "?p \<noteq> m" by simp
    have e: "map (\<lambda>i. blk st (ds[m := x]) i ?s) ?keep = map (\<lambda>i. blk st ds i ?s) ?keep"
      using other True by (intro map_cong refl) simp
    have "reconstructed st (ds[m := x]) ?s ?p ?d = reconstructed st ds ?s ?p ?d"
      unfolding reconstructed_def e other [OF pm] ..
    moreover from True one d have "dev_missing st ! ?d" by simp
    ultimately show ?thesis by (simp add: delivered_def Let_def)
  qed
qed

lemma data_disk_alt: "data_disk p d = (if d < p then d else d + 1)"
  by (simp add: data_disk_def)

lemma full_stripe_image_data:
  assumes d: "d < num_devices st - 1"
    and pres: "\<not> dev_missing st ! data_disk (parity_disk st s) d"
  shows "full_stripe_image st ds buffer s ! data_disk (parity_disk st s) d
      = take (s * block_size st) (ds ! data_disk (parity_disk st s) d)
        @ chunk st buffer d
        @ drop (s * block_size st + block_size st) (ds ! data_disk (parity_disk st s) d)"
proof -
  let ?p = "parity_disk st s"
  from d have i: "data_disk ?p d < num_devices st" by (rule data_disk_less)
  have "incoming st buffer s (data_disk ?p d) = chunk st buffer d"
    using d by (rule incoming_data)
  moreover have "full_stripe_image st ds buffer s ! data_disk ?p d
      = take (s * block_size st) (ds ! data_disk ?p d)
        @ incoming st buffer s (data_disk ?p d)
        @ drop (s * block_size st + block_size st) (ds ! data_disk ?p d)"
    using i pres by (simp add: full_stripe_image_nth incoming_def)
  ultimately show ?thesis by simp
qed

lemma full_stripe_write_short:
  assumes B: "0 < block_size st" and N: "2 \<le> num_devices st"
    and lds: "length ds = num_devices st" and off: "offset < 2 ^ 64"
    and short: "\<not> (\<forall>i < num_devices st. \<not> dev_missing st ! i \<longrightarrow>
            offset div stripe_span st * block_size st + block_size st \<le> length (ds ! i))"
  shows "\<exists>e ds'. full_stripe_write st ds buffer offset = (Inl e, ds')"
proof -
  obtain r ds' where w: "full_stripe_write st ds buffer offset = (r, ds')"
    by (cases "full_stripe_write st ds buffer offset")
  show ?thesis
  proof (cases r)
    case (Inl e)
    with w show ?thesis by simp
  next
    case (Inr u)
    from full_stripe_write_InrD(3) [OF B N lds off w [unfolded Inr]] short
    show ?thesis by simp
  qed
qed

lemma xmp_read_consistent_stripe:
  assumes B: "0 < block_size st" and N: "3 \<le> num_devices st"
    and span32: "stripe_span st < 2 ^ 32"
    and one: "\<forall>i \<in> set [0..<num_devices st]. dev_missing st ! i \<longleftrightarrow> i = m"
    and rng: "s * stripe_span st + stripe_span st \<le> 2 ^ 64"
    and par: "parity_ok st ds s"
    and data: "\<forall>j < num_devices st - 1.
        blk st ds (data_disk (parity_disk st s) j) s = chunk st buf j"
    and buf: "length buf = stripe_span st"
  shows "xmp_read st (ds[m := x]) (stripe_span st) (s * stripe_span st)
           = Some (Inr buf, ds[m := x])"
proof -
  have fits: "\<forall>i < num_devices st. i \<noteq> m \<longrightarrow>
      s * block_size st + block_size st \<le> length (ds[m := x] ! i)"
    using par by (simp add: parity_ok_def)
  have deliv: "\<forall>j < num_devices st - 1.
      delivered st (ds[m := x]) (s * stripe_span st + j * block_size st) = chunk st buf j"
  proof (intro allI impI)
    fix j assume j: "j < num_devices st - 1"
    let ?o = "s * stripe_span st + j * block_size st"
    note sp = stripe_of_block [OF B j, of s]
    have "delivered st (ds[m := x]) ?o = delivered st ds ?o"
      using N one by (rule delivered_ignores_missing)
    also have "\<dots> = blk st ds (data_disk (parity_disk st (stripe st ?o)) (pos st ?o)) (stripe st ?o)"
      using N par by (intro delivered_consistent) (simp_all only: sp)
    also have "\<dots> = blk st ds (data_disk (parity_disk st s) j) s" by (simp only: sp)
    also have "\<dots> = chunk st buf j" using data j by simp
    finally show "delivered st (ds[m := x]) ?o = chunk st buf j" .
  qed
  from B N span32 one rng fits deliv buf show ?thesis by (rule xmp_read_one_stripe)
qed

section \<open>Properties of xmp_write\<close>

lemma raid3_write:
  "xmp_write raid3 blank3 aaaa_bbbb 8 0 = Some (Inr (), written3)"
  by (simp add: xmp_write_def xmp_write_loop.simps full_stripe_write_def scenario_defs
      geometry_defs upt3 zero_block_def replicate_numerals xor_block_def
      pwrite_block_def pwrite_def Let_def)

text \<open>
  C5. The full-stripe path. When the offset is a multiple of the stripe span
  \<open>(N - 1) * B\<close> and at least that many bytes remain, one iteration of the write loop
  handles the whole stripe \<open>s\<close>. If the parity slot of \<open>s\<close> is missing, or a slot
  that is present does not hold stripe \<open>s\<close>, the write returns -1. Otherwise the
  iteration returns success and the loop goes on with the remaining bytes, and a
  request of exactly one stripe returns success, leaving these disks: at \<open>s * B\<close>,
  the slot of incoming block \<open>d\<close> (slot \<open>d\<close> when \<open>d\<close> is below the parity slot,
  \<open>d + 1\<close> otherwise) holds that block unless the slot is missing, the parity slot
  holds the XOR of the \<open>N - 1\<close> incoming blocks, and every other byte of every slot is
  as before. This is for any set of at least three slots with a positive block size
  and a stripe span that is an \<open>int\<close>, a \<open>u_int32_t\<close> length and a \<open>u_int64_t\<close>
  offset, and a buffer that holds \<open>len\<close> bytes. For B = 4 and N = 3, writing
  AAAA BBBB at offset 0 leaves AAAA on slot 1, BBBB on slot 2 and AAAA XOR BBBB on
  slot 0.
\<close>

theorem full_stripe_path:
  assumes N: "3 \<le> num_devices st" and B: "0 < block_size st"
    and span: "stripe_span st < 2 ^ 31"
    and lds: "length ds = num_devices st"
    and off: "offset < 2 ^ 64"
    and al: "offset mod stripe_span st = 0"
    and len: "stripe_span st \<le> len" "len < 2 ^ 32"
    and buf: "len \<le> length buffer"
  shows "(let s = offset div stripe_span st;
              p = parity_disk st s;
              phys = s * block_size st;
              ds' = full_stripe_image st ds buffer s;
              fits = (\<forall>i < num_devices st. \<not> dev_missing st ! i \<longrightarrow>
                        phys + block_size st \<le> length (ds ! i))
          in (dev_missing st ! p \<or> \<not> fits \<longrightarrow>
                (\<exists>e ds''. xmp_write st ds buffer len offset = Some (Inl e, ds'')
                    \<and> retcode (Inl e :: error + unit) = - 1))
           \<and> (\<not> dev_missing st ! p \<and> fits \<longrightarrow>
                full_stripe_write st ds buffer offset = (Inr (), ds')
                \<and> xmp_write st ds buffer (stripe_span st) offset = Some (Inr (), ds')
                \<and> xmp_write st ds buffer len offset
                  = xmp_write st ds' (drop (stripe_span st) buffer) (len - stripe_span st)
                      ((offset + stripe_span st) mod 2 ^ 64)
                \<and> length ds' = num_devices st
                \<and> (\<forall>d < num_devices st - 1.
                      \<not> dev_missing st ! (if d < p then d else d + 1) \<longrightarrow>
                      ds' ! (if d < p then d else d + 1)
                        = take phys (ds ! (if d < p then d else d + 1))
                          @ take (block_size st) (drop (d * block_size st) buffer)
                          @ drop (phys + block_size st) (ds ! (if d < p then d else d + 1)))
                \<and> (\<forall>i < num_devices st. dev_missing st ! i \<longrightarrow> ds' ! i = ds ! i)
                \<and> ds' ! p = take phys (ds ! p)
                     @ xor_blocks st (map (chunk st buffer) [0..<num_devices st - 1])
                     @ drop (phys + block_size st) (ds ! p)
                \<and> (\<forall>d < num_devices st - 1. length (chunk st buffer d) = block_size st)))
       \<and> xmp_write raid3 blank3 aaaa_bbbb 8 0 = Some (Inr (), written3)
       \<and> written3 ! 1 = [65, 65, 65, 65, 0, 0, 0, 0]
       \<and> written3 ! 2 = [66, 66, 66, 66, 0, 0, 0, 0]
       \<and> written3 ! 0 = xor_block [65, 65, 65, 65] [66, 66, 66, 66] @ [0, 0, 0, 0]"
proof -
  let ?s = "offset div stripe_span st"
  let ?p = "parity_disk st ?s"
  let ?phys = "?s * block_size st"
  let ?ds' = "full_stripe_image st ds buffer ?s"
  let ?fits = "\<forall>i < num_devices st. \<not> dev_missing st ! i \<longrightarrow>
                        ?phys + block_size st \<le> length (ds ! i)"
  from N have N2: "2 \<le> num_devices st" by simp
  from N have p: "?p < num_devices st" by (intro parity_disk_less) simp
  have "(num_devices st - 1) * block_size st \<le> length buffer"
    using len(1) buf by (simp add: stripe_span_def)
  then have chunks: "\<forall>d < num_devices st - 1. length (chunk st buffer d) = block_size st"
    by (simp add: length_chunk)
  have refused: "\<exists>e ds''. xmp_write st ds buffer len offset = Some (Inl e, ds'')
      \<and> retcode (Inl e :: error + unit) = - 1"
    if bad: "dev_missing st ! ?p \<or> \<not> ?fits"
  proof -
    have "\<exists>e ds''. full_stripe_write st ds buffer offset = (Inl e, ds'')"
    proof (cases "dev_missing st ! ?p")
      case True
      then show ?thesis by (rule full_stripe_write_refused)
    next
      case False
      with bad have "\<not> ?fits" by simp
      with B N2 lds off show ?thesis by (rule full_stripe_write_short)
    qed
    then obtain e ds'' where "full_stripe_write st ds buffer offset = (Inl e, ds'')" by blast
    with xmp_write_loop_full [OF B N2 al len(1), of ds buffer]
    have "xmp_write st ds buffer len offset = Some (Inl e, ds'')"
      by (simp add: xmp_write_def)
    then show ?thesis by (auto simp: retcode_def)
  qed
  have taken: "full_stripe_write st ds buffer offset = (Inr (), ?ds')
      \<and> xmp_write st ds buffer (stripe_span st) offset = Some (Inr (), ?ds')
      \<and> xmp_write st ds buffer len offset
        = xmp_write st ?ds' (drop (stripe_span st) buffer) (len - stripe_span st)
            ((offset + stripe_span st) mod 2 ^ 64)
      \<and> length ?ds' = num_devices st
      \<and> (\<forall>d < num_devices st - 1.
            \<not> dev_missing st ! (if d < ?p then d else d + 1) \<longrightarrow>
            ?ds' ! (if d < ?p then d else d + 1)
              = take ?phys (ds ! (if d < ?p then d else d + 1))
                @ take (block_size st) (drop (d * block_size st) buffer)
                @ drop (?phys + block_size st) (ds ! (if d < ?p then d else d + 1)))
      \<and> (\<forall>i < num_devices st. dev_missing st ! i \<longrightarrow> ?ds' ! i = ds ! i)
      \<and> ?ds' ! ?p = take ?phys (ds ! ?p)
           @ xor_blocks st (map (chunk st buffer) [0..<num_devices st - 1])
           @ drop (?phys + block_size st) (ds ! ?p)
      \<and> (\<forall>d < num_devices st - 1. length (chunk st buffer d) = block_size st)"
    if good: "\<not> dev_missing st ! ?p \<and> ?fits"
  proof -
    from good have pres: "\<not> dev_missing st ! ?p" and fits: ?fits by simp_all
    have w: "full_stripe_write st ds buffer offset = (Inr (), ?ds')"
      using B N2 lds off chunks fits pres by (rule full_stripe_write_ok)
    have one: "xmp_write st ds buffer (stripe_span st) offset = Some (Inr (), ?ds')"
      using xmp_write_one_stripe [OF B N2 al, of ds buffer] w by simp
    have step: "xmp_write st ds buffer len offset
        = xmp_write st ?ds' (drop (stripe_span st) buffer) (len - stripe_span st)
            ((offset + stripe_span st) mod 2 ^ 64)"
      using xmp_write_loop_full [OF B N2 al len(1), of ds buffer] w
      by (simp add: xmp_write_def)
    have data: "?ds' ! (if d < ?p then d else d + 1)
              = take ?phys (ds ! (if d < ?p then d else d + 1))
                @ take (block_size st) (drop (d * block_size st) buffer)
                @ drop (?phys + block_size st) (ds ! (if d < ?p then d else d + 1))"
      if "d < num_devices st - 1" "\<not> dev_missing st ! (if d < ?p then d else d + 1)" for d
    proof -
      from that(2) have "\<not> dev_missing st ! data_disk ?p d" unfolding data_disk_alt .
      from full_stripe_image_data [OF that(1) this, of ds buffer] show ?thesis
        unfolding data_disk_alt chunk_def .
    qed
    have kept: "?ds' ! i = ds ! i" if "i < num_devices st" "dev_missing st ! i" for i
      using that by (simp add: full_stripe_image_nth)
    have parity: "?ds' ! ?p = take ?phys (ds ! ?p)
           @ xor_blocks st (map (chunk st buffer) [0..<num_devices st - 1])
           @ drop (?phys + block_size st) (ds ! ?p)"
      using p pres by (simp add: full_stripe_image_nth)
    from w one step data kept parity chunks show ?thesis by simp
  qed
  have "written3 ! 1 = [65, 65, 65, 65, 0, 0, 0, 0]"
    "written3 ! 2 = [66, 66, 66, 66, 0, 0, 0, 0]"
    "written3 ! 0 = xor_block [65, 65, 65, 65] [66, 66, 66, 66] @ [0, 0, 0, 0]"
    by (simp_all add: written3_def xor_block_def)
  with refused taken raid3_write show ?thesis unfolding Let_def by blast
qed

theorem full_stripe_path_witness:
  "(0::nat) mod stripe_span raid3 = 0 \<and> stripe_span raid3 \<le> 8 \<and> 8 \<le> length aaaa_bbbb
   \<and> xmp_write raid3 blank3 aaaa_bbbb 8 0
       = Some (Inr (), [[3, 3, 3, 3, 0, 0, 0, 0], [65, 65, 65, 65, 0, 0, 0, 0],
                        [66, 66, 66, 66, 0, 0, 0, 0]])
   \<and> xmp_write degraded3 blank3 aaaa_bbbb 8 0
       = Some (Inr (), [[3, 3, 3, 3, 0, 0, 0, 0], [0, 0, 0, 0, 0, 0, 0, 0],
                        [66, 66, 66, 66, 0, 0, 0, 0]])
   \<and> (\<exists>e ds''. xmp_write (raid3\<lparr>dev_missing := [True, False, False]\<rparr>) blank3 aaaa_bbbb 8 0
                  = Some (Inl e, ds'')
          \<and> retcode (Inl e :: error + unit) = - 1)"
proof -
  let ?lost = "raid3\<lparr>dev_missing := [True, False, False]\<rparr>"
  have span8: "stripe_span raid3 = 8" "stripe_span degraded3 = 8" "stripe_span ?lost = 8"
    by (simp_all add: scenario_defs stripe_span_def)
  have al: "(0::nat) mod stripe_span raid3 = 0" "(0::nat) mod stripe_span degraded3 = 0"
    "(0::nat) mod stripe_span ?lost = 0"
    by simp_all
  have len: "stripe_span raid3 \<le> 8" "stripe_span degraded3 \<le> 8" "stripe_span ?lost \<le> 8"
    "(8::nat) < 2 ^ 32" and buf: "8 \<le> length aaaa_bbbb" and off: "(0::nat) < 2 ^ 64"
    by (simp_all add: span8 aaaa_bbbb_def)
  have N: "3 \<le> num_devices raid3" "3 \<le> num_devices degraded3" "3 \<le> num_devices ?lost"
    and B: "0 < block_size raid3" "0 < block_size degraded3" "0 < block_size ?lost"
    and sp: "stripe_span raid3 < 2 ^ 31" "stripe_span degraded3 < 2 ^ 31"
      "stripe_span ?lost < 2 ^ 31"
    and lds: "length blank3 = num_devices raid3" "length blank3 = num_devices degraded3"
      "length blank3 = num_devices ?lost"
    by (simp_all add: scenario_defs stripe_span_def)
  have l8: "length (blank3 ! i) = 8" if "i < 3" for i
    using that by (auto simp: blank3_def nth_Cons split: nat.splits)
  have p0: "\<not> dev_missing raid3 ! parity_disk raid3 (0 div stripe_span raid3)"
      "\<not> dev_missing degraded3 ! parity_disk degraded3 (0 div stripe_span degraded3)"
      "dev_missing ?lost ! parity_disk ?lost (0 div stripe_span ?lost)"
    by (simp_all add: scenario_defs geometry_defs)
  have fits: "\<forall>i < num_devices raid3. \<not> dev_missing raid3 ! i \<longrightarrow>
        0 div stripe_span raid3 * block_size raid3 + block_size raid3 \<le> length (blank3 ! i)"
      "\<forall>i < num_devices degraded3. \<not> dev_missing degraded3 ! i \<longrightarrow>
        0 div stripe_span degraded3 * block_size degraded3 + block_size degraded3
          \<le> length (blank3 ! i)"
    using l8 by (simp_all add: scenario_defs)
  have im: "full_stripe_image raid3 blank3 aaaa_bbbb 0
      = [[3, 3, 3, 3, 0, 0, 0, 0], [65, 65, 65, 65, 0, 0, 0, 0], [66, 66, 66, 66, 0, 0, 0, 0]]"
    "full_stripe_image degraded3 blank3 aaaa_bbbb 0
      = [[3, 3, 3, 3, 0, 0, 0, 0], [0, 0, 0, 0, 0, 0, 0, 0], [66, 66, 66, 66, 0, 0, 0, 0]]"
    by (simp_all add: full_stripe_image_def scenario_defs geometry_defs upt3 chunk_def
        xor_blocks_def xor_block_def zero_block_def replicate_numerals)
  from full_stripe_path [OF N(1) B(1) sp(1) lds(1) off al(1) len(1) len(4) buf] p0(1) fits(1)
  have w1: "xmp_write raid3 blank3 aaaa_bbbb (stripe_span raid3) 0
      = Some (Inr (), full_stripe_image raid3 blank3 aaaa_bbbb (0 div stripe_span raid3))"
    unfolding Let_def by blast
  from full_stripe_path [OF N(2) B(2) sp(2) lds(2) off al(2) len(2) len(4) buf] p0(2) fits(2)
  have w2: "xmp_write degraded3 blank3 aaaa_bbbb (stripe_span degraded3) 0
      = Some (Inr (), full_stripe_image degraded3 blank3 aaaa_bbbb (0 div stripe_span degraded3))"
    unfolding Let_def by blast
  from full_stripe_path [OF N(3) B(3) sp(3) lds(3) off al(3) len(3) len(4) buf] p0(3)
  have w3: "\<exists>e ds''. xmp_write ?lost blank3 aaaa_bbbb 8 0 = Some (Inl e, ds'')
          \<and> retcode (Inl e :: error + unit) = - 1"
    unfolding Let_def by blast
  from w1 w2 have "xmp_write raid3 blank3 aaaa_bbbb 8 0
       = Some (Inr (), [[3, 3, 3, 3, 0, 0, 0, 0], [65, 65, 65, 65, 0, 0, 0, 0],
                        [66, 66, 66, 66, 0, 0, 0, 0]])"
    "xmp_write degraded3 blank3 aaaa_bbbb 8 0
       = Some (Inr (), [[3, 3, 3, 3, 0, 0, 0, 0], [0, 0, 0, 0, 0, 0, 0, 0],
                        [66, 66, 66, 66, 0, 0, 0, 0]])"
    by (simp_all add: span8 im)
  with w3 al(1) len(1) buf show ?thesis by blast
qed

text \<open>
  C2. Round trip. Take a write request of one full stripe, \<open>(N - 1) * B\<close> bytes at an
  offset that is a multiple of the stripe span, with all slots present. It returns
  success exactly when every back-end holds that stripe. After it has returned success,
  a read of the same offset and length returns the bytes written: with all slots
  present, and also after any one slot \<open>m\<close> (the parity slot of the stripe included)
  has been marked missing, whatever that slot's back-end then holds. This is for any
  set of at least three slots with a positive block size, a stripe span that is an
  \<open>int\<close> and a request that ends within the 64-bit offset range; nothing is assumed
  about the virtual size.
\<close>

theorem full_stripe_round_trip:
  assumes N: "3 \<le> num_devices st" and B: "0 < block_size st"
    and span: "stripe_span st < 2 ^ 31"
    and lds: "length ds = num_devices st"
    and lm: "length (dev_missing st) = num_devices st"
    and all: "all_present st"
    and al: "offset mod stripe_span st = 0"
    and buf: "length buf = stripe_span st"
    and rng: "offset + stripe_span st \<le> 2 ^ 64"
  shows "((\<exists>ds'. xmp_write st ds buf (stripe_span st) offset = Some (Inr (), ds'))
            \<longleftrightarrow> (\<forall>i < num_devices st.
                   offset div stripe_span st * block_size st + block_size st
                     \<le> length (ds ! i)))
       \<and> (\<forall>ds'. xmp_write st ds buf (stripe_span st) offset = Some (Inr (), ds') \<longrightarrow>
              xmp_read st ds' (stripe_span st) offset = Some (Inr buf, ds')
            \<and> (\<forall>m < num_devices st. \<forall>x.
                  xmp_read (st\<lparr>dev_missing := (dev_missing st)[m := True]\<rparr>) (ds'[m := x])
                      (stripe_span st) offset
                    = Some (Inr buf, ds'[m := x])))"
proof -
  let ?s = "offset div stripe_span st"
  let ?p = "parity_disk st ?s"
  let ?im = "full_stripe_image st ds buf ?s"
  let ?fits = "\<forall>i < num_devices st. ?s * block_size st + block_size st \<le> length (ds ! i)"
  from N have N2: "2 \<le> num_devices st" by simp
  from N have p: "?p < num_devices st" by (intro parity_disk_less) simp
  from all have pres: "\<forall>i < num_devices st. \<not> dev_missing st ! i"
    by (simp add: all_present_def)
  from pres p have ppres: "\<not> dev_missing st ! ?p" by simp
  from al have off: "offset = ?s * stripe_span st" by (simp add: mod_eq_0_iff_dvd)
  from block_le_span [OF N2] B have "0 < stripe_span st" by simp
  with rng have o64: "offset < 2 ^ 64" by simp
  from span have span32: "stripe_span st < 2 ^ 32" by simp
  have "(num_devices st - 1) * block_size st \<le> length buf"
    using buf by (simp add: stripe_span_def)
  then have chunks: "\<forall>d < num_devices st - 1. length (chunk st buf d) = block_size st"
    by (simp add: length_chunk)
  note one_stripe = xmp_write_one_stripe [OF B N2 al, of ds buf]
  have written: "ds' = ?im \<and> ?fits"
    if w: "xmp_write st ds buf (stripe_span st) offset = Some (Inr (), ds')" for ds'
  proof -
    obtain r ds1 where f: "full_stripe_write st ds buf offset = (r, ds1)"
      by (cases "full_stripe_write st ds buf offset")
    from w one_stripe f have r: "r = Inr ()" and ds1: "ds1 = ds'"
      by (cases r; simp)+
    note d = full_stripe_write_InrD [OF B N2 lds o64 f [unfolded r ds1]]
    from d(3) pres d(4) show ?thesis by simp
  qed
  have succeeds: "xmp_write st ds buf (stripe_span st) offset = Some (Inr (), ?im)"
    if fits: ?fits
  proof -
    from fits have "\<forall>i < num_devices st. \<not> dev_missing st ! i \<longrightarrow>
        ?s * block_size st + block_size st \<le> length (ds ! i)" by simp
    with B N2 lds o64 chunks
    have "full_stripe_write st ds buf offset = (Inr (), ?im)"
      using ppres by (rule full_stripe_write_ok)
    with one_stripe show ?thesis by simp
  qed
  have iff: "(\<exists>ds'. xmp_write st ds buf (stripe_span st) offset = Some (Inr (), ds')) \<longleftrightarrow> ?fits"
    using written succeeds by blast
  have reads: "xmp_read st ?im (stripe_span st) offset = Some (Inr buf, ?im)
      \<and> (\<forall>m < num_devices st. \<forall>x.
            xmp_read (st\<lparr>dev_missing := (dev_missing st)[m := True]\<rparr>) (?im[m := x])
                (stripe_span st) offset
              = Some (Inr buf, ?im[m := x]))"
    if fits: ?fits
  proof -
    have par: "parity_ok st ?im ?s"
      using lds p chunks fits pres by (rule image_parity_ok)
    have data: "\<forall>j < num_devices st - 1. blk st ?im (data_disk ?p j) ?s = chunk st buf j"
    proof (intro allI impI)
      fix j assume j: "j < num_devices st - 1"
      then have i: "data_disk ?p j < num_devices st" by (rule data_disk_less)
      with lds p chunks fits pres
      have "blk st ?im (data_disk ?p j) ?s = incoming st buf ?s (data_disk ?p j)"
        by (intro image_blk_same) simp_all
      with j show "blk st ?im (data_disk ?p j) ?s = chunk st buf j"
        by (simp add: incoming_data)
    qed
    have rng': "?s * stripe_span st + stripe_span st \<le> 2 ^ 64"
      using rng off by simp
    have none: "\<forall>i \<in> set [0..<num_devices st]. dev_missing st ! i \<longleftrightarrow> i = num_devices st"
      using pres by simp
    have "xmp_read st (?im[num_devices st := []]) (stripe_span st) (?s * stripe_span st)
        = Some (Inr buf, ?im[num_devices st := []])"
      using B N span32 none rng' par data buf by (rule xmp_read_consistent_stripe)
    then have plain: "xmp_read st ?im (stripe_span st) offset = Some (Inr buf, ?im)"
      using off by (simp add: list_update_beyond)
    have degraded: "xmp_read (st\<lparr>dev_missing := (dev_missing st)[m := True]\<rparr>) (?im[m := x])
        (stripe_span st) offset = Some (Inr buf, ?im[m := x])"
      if m: "m < num_devices st" for m x
    proof -
      let ?st = "st\<lparr>dev_missing := (dev_missing st)[m := True]\<rparr>"
      have Bm: "0 < block_size ?st" and Nm: "3 \<le> num_devices ?st"
        and spm: "stripe_span ?st < 2 ^ 32"
        using B N span32 by simp_all
      have one: "\<forall>i \<in> set [0..<num_devices ?st]. dev_missing ?st ! i \<longleftrightarrow> i = m"
        using pres lm m by (simp add: nth_list_update)
      have rngm: "?s * stripe_span ?st + stripe_span ?st \<le> 2 ^ 64"
        using rng' by simp
      have parm: "parity_ok ?st ?im ?s" using par by simp
      have datam: "\<forall>j < num_devices ?st - 1.
          blk ?st ?im (data_disk (parity_disk ?st ?s) j) ?s = chunk ?st buf j"
        using data by simp
      have bufm: "length buf = stripe_span ?st" using buf by simp
      have "xmp_read ?st (?im[m := x]) (stripe_span ?st) (?s * stripe_span ?st)
          = Some (Inr buf, ?im[m := x])"
        using Bm Nm spm one rngm parm datam bufm by (rule xmp_read_consistent_stripe)
      then show ?thesis using off by simp
    qed
    from plain degraded show ?thesis by blast
  qed
  have trip: "xmp_read st ds' (stripe_span st) offset = Some (Inr buf, ds')
      \<and> (\<forall>m < num_devices st. \<forall>x.
            xmp_read (st\<lparr>dev_missing := (dev_missing st)[m := True]\<rparr>) (ds'[m := x])
                (stripe_span st) offset
              = Some (Inr buf, ds'[m := x]))"
    if w: "xmp_write st ds buf (stripe_span st) offset = Some (Inr (), ds')" for ds'
  proof -
    from written [OF w] have e: "ds' = ?im" and fits: ?fits by simp_all
    from reads [OF fits] show ?thesis unfolding e .
  qed
  from iff trip show ?thesis by blast
qed

theorem full_stripe_round_trip_witness:
  "all_present raid3 \<and> length aaaa_bbbb = stripe_span raid3
   \<and> xmp_write raid3 blank3 aaaa_bbbb 8 0 = Some (Inr (), written3)
   \<and> xmp_read raid3 written3 8 0 = Some (Inr aaaa_bbbb, written3)
   \<and> xmp_read degraded3 (written3[1 := [7, 7]]) 8 0
        = Some (Inr aaaa_bbbb, written3[1 := [7, 7]])
   \<and> xmp_read (raid3\<lparr>dev_missing := [True, False, False]\<rparr>) (written3[0 := []]) 8 0
        = Some (Inr aaaa_bbbb, written3[0 := []])"
proof -
  have N: "3 \<le> num_devices raid3" and B: "0 < block_size raid3"
    and lds: "length blank3 = num_devices raid3"
    and lm: "length (dev_missing raid3) = num_devices raid3"
    by (simp_all add: scenario_defs)
  have span: "stripe_span raid3 = 8" by (simp add: raid3_def stripe_span_def)
  have sp: "stripe_span raid3 < 2 ^ 31" by (simp add: span)
  have all: "all_present raid3" by (simp add: all_present_def raid3_def range3)
  have al: "(0::nat) mod stripe_span raid3 = 0" by simp
  have buf: "length aaaa_bbbb = stripe_span raid3" by (simp add: span aaaa_bbbb_def)
  have rng: "0 + stripe_span raid3 \<le> 2 ^ 64" by (simp add: span)
  have n: "num_devices raid3 = 3" by (simp add: raid3_def)
  have m1: "raid3\<lparr>dev_missing := (dev_missing raid3)[Suc 0 := True]\<rparr> = degraded3"
    and m0: "raid3\<lparr>dev_missing := (dev_missing raid3)[0 := True]\<rparr>
      = raid3\<lparr>dev_missing := [True, False, False]\<rparr>"
    by (simp_all add: degraded3_def raid3_def)
  have w: "xmp_write raid3 blank3 aaaa_bbbb (stripe_span raid3) 0 = Some (Inr (), written3)"
    by (simp add: span raid3_write)
  from full_stripe_round_trip [OF N B sp lds lm all al buf rng]
  have "xmp_write raid3 blank3 aaaa_bbbb (stripe_span raid3) 0 = Some (Inr (), written3) \<longrightarrow>
      xmp_read raid3 written3 (stripe_span raid3) 0 = Some (Inr aaaa_bbbb, written3)
      \<and> (\<forall>m < num_devices raid3. \<forall>x.
            xmp_read (raid3\<lparr>dev_missing := (dev_missing raid3)[m := True]\<rparr>) (written3[m := x])
                (stripe_span raid3) 0
              = Some (Inr aaaa_bbbb, written3[m := x]))"
    by blast
  with w have r: "xmp_read raid3 written3 (stripe_span raid3) 0 = Some (Inr aaaa_bbbb, written3)"
    and d: "\<forall>m < num_devices raid3. \<forall>x.
            xmp_read (raid3\<lparr>dev_missing := (dev_missing raid3)[m := True]\<rparr>) (written3[m := x])
                (stripe_span raid3) 0
              = Some (Inr aaaa_bbbb, written3[m := x])"
    by simp_all
  from d [rule_format, of 1 "[7, 7]"]
  have d1: "xmp_read degraded3 (written3[Suc 0 := [7, 7]]) 8 0
      = Some (Inr aaaa_bbbb, written3[Suc 0 := [7, 7]])"
    by (simp add: n m1 span)
  from d [rule_format, of 0 "[]"]
  have d0: "xmp_read (raid3\<lparr>dev_missing := [True, False, False]\<rparr>) (written3[0 := []]) 8 0
      = Some (Inr aaaa_bbbb, written3[0 := []])"
    by (simp add: n m0 span)
  from all buf w r d1 d0 show ?thesis by (simp add: span)
qed

subsection \<open>Parity consistency across one step of the write loop\<close>

lemma rmw_write_success:
  assumes B: "0 < block_size st" and off: "offset < 2 ^ 64"
    and pp: "\<not> dev_missing st ! parity_disk st (stripe st offset)"
    and dp: "\<not> dev_missing st ! data_disk (parity_disk st (stripe st offset)) (pos st offset)"
    and run: "rmw_write st ds buffer offset = (Inr u, ds')"
  shows "(let s = stripe st offset;
              p = parity_disk st s;
              d = data_disk p (pos st offset);
              nd = take (block_size st) buffer
          in s * block_size st + block_size st \<le> length (ds ! p)
           \<and> s * block_size st + block_size st \<le> length (ds ! d)
           \<and> length nd = block_size st
           \<and> ds' = put_blk st (put_blk st ds d (s * block_size st) nd) p (s * block_size st)
                      (xor_block (xor_block (blk st ds p s) (blk st ds d s)) nd))"
proof -
  let ?s = "stripe st offset"
  let ?p = "parity_disk st ?s"
  let ?d = "data_disk ?p (pos st offset)"
  let ?nd = "take (block_size st) buffer"
  let ?phys = "?s * block_size st"
  have phys: "phys_offset st ?s = ?phys" using B off by (rule phys_offset_exact)
  have "?d \<noteq> ?p" by (rule data_disk_neq)
  then have pd: "?p \<noteq> ?d" by (rule not_sym)
  obtain r1 ds1 where e1: "pread_block st ds ?p ?phys ''pread old parity'' = (r1, ds1)"
    by (cases "pread_block st ds ?p ?phys ''pread old parity''")
  from run e1 pp obtain op where r1: "r1 = Inr op"
    unfolding rmw_write_def Let_def phys by (cases r1) simp_all
  note f1 = pread_block_InrD [OF B e1 [unfolded r1]]
  obtain r2 ds2 where e2: "pread_block st ds ?d ?phys ''pread old data'' = (r2, ds2)"
    by (cases "pread_block st ds ?d ?phys ''pread old data''")
  from run e1 r1 f1(3) e2 pp dp obtain od where r2: "r2 = Inr od"
    unfolding rmw_write_def Let_def phys by (cases r2) simp_all
  note f2 = pread_block_InrD [OF B e2 [unfolded r2]]
  let ?np = "xor_block (xor_block op od) ?nd"
  obtain r3 ds3 where e3: "pwrite_block st ds ?d ?nd ?phys ''pwrite new data'' = (r3, ds3)"
    by (cases "pwrite_block st ds ?d ?nd ?phys ''pwrite new data''")
  from run e1 r1 f1(3) e2 r2 f2(3) e3 pp dp obtain u3 where r3: "r3 = Inr u3"
    unfolding rmw_write_def Let_def phys by (cases r3) simp_all
  have lnd: "length ?nd \<le> block_size st" by simp
  note f3 = pwrite_block_InrD [OF B lnd e3 [unfolded r3]]
  from run e1 r1 f1(3) e2 r2 f2(3) e3 r3 pp dp
  have e4: "pwrite_block st ds3 ?p ?np ?phys ''pwrite new parity'' = (Inr u, ds')"
    unfolding rmw_write_def Let_def phys by simp
  have "length ?np \<le> length ?nd" by (simp only: length_xor_block min.cobounded2)
  then have lnp: "length ?np \<le> block_size st" using lnd by (rule le_trans)
  note f4 = pwrite_block_InrD [OF B lnp e4]
  have "op = blk st ds ?p ?s" "od = blk st ds ?d ?s"
    using f1(2) f2(2) by (simp_all add: blk_def)
  with f1(1) f2(1) f3(1) f3(3) f4(3) show ?thesis
    unfolding Let_def by simp
qed

lemma put_blk_parity_keep:
  assumes ld: "length data = block_size st"
    and fit: "s * block_size st + block_size st \<le> length (ds ! i)"
    and i: "i < length ds"
    and ne: "s0 \<noteq> s" and par: "parity_ok st ds s0"
  shows "parity_ok st (put_blk st ds i (s * block_size st) data) s0"
proof (rule parity_ok_cong [OF _ _ par])
  show "\<forall>j < num_devices st. blk st (put_blk st ds i (s * block_size st) data) j s0
      = blk st ds j s0"
  proof (intro allI impI)
    fix j
    show "blk st (put_blk st ds i (s * block_size st) data) j s0 = blk st ds j s0"
    proof (cases "j = i")
      case True
      with i ld fit ne show ?thesis by (simp add: blk_put_other_stripe)
    next
      case False
      then show ?thesis by (rule blk_put_other_slot)
    qed
  qed
  show "\<forall>j < num_devices st. length (put_blk st ds i (s * block_size st) data ! j)
      = length (ds ! j)"
    using ld fit by (simp add: length_put_blk_nth)
qed

lemma xor_update_two:
  assumes p: "p < n" and d: "d < n" and pd: "p \<noteq> d"
    and len: "\<forall>i \<in> set [0..<n]. length (f i) = block_size st"
    and lnd: "length nd = block_size st"
    and g: "\<forall>i < n. g i = (if i = p then xor_block (xor_block (f p) (f d)) nd
                             else if i = d then nd else f i)"
  shows "xor_blocks st (map g [0..<n]) = xor_blocks st (map f [0..<n])"
proof -
  let ?keep = "filter (\<lambda>i. i \<noteq> p \<and> i \<noteq> d) [0..<n]"
  let ?R = "xor_blocks st (map f ?keep)"
  have lg: "\<forall>i \<in> set [0..<n]. length (g i) = block_size st"
    using g len lnd p d by simp
  have "map g ?keep = map f ?keep"
    using g by (intro map_cong refl) simp
  then have Rg: "xor_blocks st (map g ?keep) = ?R" by (rule arg_cong)
  have lR: "length ?R = block_size st"
    using len by (intro length_xor_blocks) simp
  have gp: "g p = xor_block (xor_block (f p) (f d)) nd" and gd: "g d = nd"
    using g p d pd by simp_all
  have "xor_blocks st (map g [0..<n]) = xor_block (g p) (xor_block (g d) ?R)"
    unfolding xor_blocks_split2 [OF p d pd lg] Rg ..
  also have "\<dots> = xor_block (f p) (xor_block (f d) (xor_block nd (xor_block nd ?R)))"
    unfolding gp gd by (simp only: xor_block_assoc)
  also have "xor_block nd (xor_block nd ?R) = ?R"
    using lR lnd by (intro xor_block_cancel) simp
  also have "xor_block (f p) (xor_block (f d) ?R) = xor_blocks st (map f [0..<n])"
    using xor_blocks_split2 [OF p d pd len] by (rule sym)
  finally show ?thesis .
qed

lemma rmw_write_parity:
  assumes B: "0 < block_size st" and N: "3 \<le> num_devices st"
    and lds: "length ds = num_devices st" and off: "offset < 2 ^ 64"
    and all: "\<forall>i < num_devices st. \<not> dev_missing st ! i"
    and run: "rmw_write st ds buffer offset = (Inr u, ds')"
    and par: "parity_ok st ds s0"
  shows "parity_ok st ds' s0" and "length ds' = num_devices st"
proof -
  let ?s = "stripe st offset"
  let ?p = "parity_disk st ?s"
  let ?d = "data_disk ?p (pos st offset)"
  let ?nd = "take (block_size st) buffer"
  let ?phys = "?s * block_size st"
  let ?np = "xor_block (xor_block (blk st ds ?p ?s) (blk st ds ?d ?s)) ?nd"
  let ?ds1 = "put_blk st ds ?d ?phys ?nd"
  let ?n = "num_devices st"
  from N have p: "?p < ?n" by (intro parity_disk_less) simp
  from N have d: "?d < ?n" by (intro data_disk_less pos_less) simp
  have "?d \<noteq> ?p" by (rule data_disk_neq)
  then have pd: "?p \<noteq> ?d" by (rule not_sym)
  from all p d have pp: "\<not> dev_missing st ! ?p" and dp: "\<not> dev_missing st ! ?d" by simp_all
  from rmw_write_success [OF B off pp dp run]
  have fp: "?phys + block_size st \<le> length (ds ! ?p)"
    and fd: "?phys + block_size st \<le> length (ds ! ?d)"
    and lnd: "length ?nd = block_size st"
    and ds': "ds' = put_blk st ?ds1 ?p ?phys ?np"
    unfolding Let_def by blast+
  show "length ds' = ?n" using ds' lds by simp
  have lbp: "length (blk st ds ?p ?s) = block_size st" using fp by (rule length_blk)
  have lbd: "length (blk st ds ?d ?s) = block_size st" using fd by (rule length_blk)
  have lnp: "length ?np = block_size st" using lbp lbd lnd by simp
  have p1: "?ds1 ! ?p = ds ! ?p" using pd by (simp add: put_blk_other)
  have fp1: "?phys + block_size st \<le> length (?ds1 ! ?p)" using fp p1 by simp
  show "parity_ok st ds' s0"
  proof (cases "s0 = ?s")
    case False
    from d lds have d': "?d < length ds" by simp
    from p lds have p': "?p < length ?ds1" by simp
    have "parity_ok st ?ds1 s0"
      using lnd fd d' False par by (rule put_blk_parity_keep)
    with lnp fp1 p' False have "parity_ok st (put_blk st ?ds1 ?p ?phys ?np) s0"
      by (rule put_blk_parity_keep)
    with ds' show ?thesis by simp
  next
    case True
    from par True have fits: "\<forall>i \<in> set [0..<?n]. ?phys + block_size st \<le> length (ds ! i)"
      and zero: "xor_blocks st (map (\<lambda>i. blk st ds i ?s) [0..<?n]) = zero_block st"
      unfolding parity_ok_def by blast+
    have len: "\<forall>i \<in> set [0..<?n]. length (blk st ds i ?s) = block_size st"
      using fits by (simp add: length_blk)
    have l1: "length (?ds1 ! j) = length (ds ! j)" for j
      using lnd fd by (rule length_put_blk_nth)
    have l2: "length (ds' ! j) = length (ds ! j)" for j
      unfolding ds' using length_put_blk_nth [OF lnp fp1, of j] l1 [of j] by simp
    have g: "\<forall>i < ?n. blk st ds' i ?s = (if i = ?p then ?np else if i = ?d then ?nd
        else blk st ds i ?s)"
    proof (intro allI impI)
      fix i assume i: "i < ?n"
      show "blk st ds' i ?s = (if i = ?p then ?np else if i = ?d then ?nd else blk st ds i ?s)"
      proof (cases "i = ?p")
        case True
        have "blk st (put_blk st ?ds1 ?p ?phys ?np) ?p ?s = ?np"
          using p lds lnp fp1 by (intro blk_put_same) simp_all
        with True ds' show ?thesis by simp
      next
        case np: False
        then have a: "blk st ds' i ?s = blk st ?ds1 i ?s"
          unfolding ds' by (rule blk_put_other_slot)
        show ?thesis
        proof (cases "i = ?d")
          case True
          have "blk st ?ds1 ?d ?s = ?nd"
            using d lds lnd fd by (intro blk_put_same) simp_all
          with a np True show ?thesis by simp
        next
          case False
          then have "blk st ?ds1 i ?s = blk st ds i ?s" by (rule blk_put_other_slot)
          with a np False show ?thesis by simp
        qed
      qed
    qed
    have "xor_blocks st (map (\<lambda>i. blk st ds' i ?s) [0..<?n])
        = xor_blocks st (map (\<lambda>i. blk st ds i ?s) [0..<?n])"
      using p d pd len lnd g by (rule xor_update_two)
    with zero fits l2 True show ?thesis by (simp add: parity_ok_def)
  qed
qed

lemma full_stripe_write_parity:
  assumes B: "0 < block_size st" and N: "3 \<le> num_devices st"
    and lds: "length ds = num_devices st" and off: "offset < 2 ^ 64"
    and all: "\<forall>i < num_devices st. \<not> dev_missing st ! i"
    and run: "full_stripe_write st ds buffer offset = (Inr u, ds')"
    and par: "parity_ok st ds s0"
  shows "parity_ok st ds' s0" and "length ds' = num_devices st"
proof -
  let ?s = "offset div stripe_span st"
  from N have N2: "2 \<le> num_devices st" by simp
  from N have p: "parity_disk st ?s < num_devices st" by (intro parity_disk_less) simp
  from full_stripe_write_success [OF B N2 lds off all run]
  have chunks: "\<forall>d < num_devices st - 1. length (chunk st buffer d) = block_size st"
    and fits: "\<forall>i < num_devices st. ?s * block_size st + block_size st \<le> length (ds ! i)"
    and ds': "ds' = full_stripe_image st ds buffer ?s"
    by blast+
  show "length ds' = num_devices st" using ds' by simp
  have fits': "\<forall>i < num_devices st. \<not> dev_missing st ! i \<longrightarrow>
      ?s * block_size st + block_size st \<le> length (ds ! i)"
    using fits by simp
  show "parity_ok st ds' s0"
  proof (cases "s0 = ?s")
    case True
    have "parity_ok st (full_stripe_image st ds buffer ?s) ?s"
      using lds p chunks fits all by (rule image_parity_ok)
    with True ds' show ?thesis by simp
  next
    case False
    have "parity_ok st (full_stripe_image st ds buffer ?s) s0"
      using lds p chunks fits' False par by (rule image_parity_keep)
    with ds' show ?thesis by simp
  qed
qed

subsection \<open>Parity consistency across write requests\<close>

lemma xmp_write_loop_parity:
  assumes "xmp_write_loop st ds buffer len offset = Some y"
  shows "0 < block_size st \<longrightarrow> 3 \<le> num_devices st
       \<longrightarrow> (\<forall>i < num_devices st. \<not> dev_missing st ! i)
       \<longrightarrow> length ds = num_devices st \<longrightarrow> offset < 2 ^ 64 \<longrightarrow> parity_ok st ds s0
       \<longrightarrow> fst y = Inr ()
       \<longrightarrow> parity_ok st (snd y) s0 \<and> length (snd y) = num_devices st"
  using assms
proof (induction rule: xmp_write_loop.raw_induct [rotated 1, consumes 1, case_names step])
  case (step loop st ds buffer len offset y)
  show ?case
  proof (intro impI)
    assume B: "0 < block_size st" and N: "3 \<le> num_devices st"
      and all: "\<forall>i < num_devices st. \<not> dev_missing st ! i"
      and lds: "length ds = num_devices st" and off: "offset < 2 ^ 64"
      and par: "parity_ok st ds s0" and succ: "fst y = Inr ()"
    have wrap: "(offset + k) mod 2 ^ 64 < (2 ^ 64 :: nat)" for k by simp
    show "parity_ok st (snd y) s0 \<and> length (snd y) = num_devices st"
    proof (cases "0 < len")
      case False
      with step(2) have "y = (Inr (), ds)" by simp
      with par lds show ?thesis by simp
    next
      case True
      show ?thesis
      proof (cases "offset mod stripe_span st = 0 \<and> stripe_span st \<le> len")
        case full: True
        obtain r ds1 where w: "full_stripe_write st ds buffer offset = (r, ds1)"
          by (cases "full_stripe_write st ds buffer offset")
        show ?thesis
        proof (cases r)
          case (Inl e)
          with step(2) True B N full w have "y = (Inl e, ds1)" by simp
          with succ show ?thesis by simp
        next
          case (Inr u)
          with step(2) True B N full w
          have next_call: "loop st ds1 (drop (stripe_span st) buffer) (len - stripe_span st)
              ((offset + stripe_span st) mod 2 ^ 64) = Some y"
            by simp
          note kept = full_stripe_write_parity [OF B N lds off all w [unfolded Inr] par]
          from step(1) [OF next_call] B N all kept wrap succ show ?thesis by blast
        qed
      next
        case part: False
        obtain r ds1 where w: "rmw_write st ds buffer offset = (r, ds1)"
          by (cases "rmw_write st ds buffer offset")
        show ?thesis
        proof (cases r)
          case (Inl e)
          with step(2) True B N part w have "y = (Inl e, ds1)" by auto
          with succ show ?thesis by simp
        next
          case (Inr u)
          with step(2) True B N part w
          have next_call: "loop st ds1 (drop (block_size st) buffer)
              ((len + 2 ^ 32 - block_size st) mod 2 ^ 32)
              ((offset + block_size st) mod 2 ^ 64) = Some y"
            by auto
          note kept = rmw_write_parity [OF B N lds off all w [unfolded Inr] par]
          from step(1) [OF next_call] B N all kept wrap succ show ?thesis by blast
        qed
      qed
    qed
  qed
qed

lemma write_seq_parity:
  assumes B: "0 < block_size st" and N: "3 \<le> num_devices st"
    and all: "\<forall>i < num_devices st. \<not> dev_missing st ! i"
  shows "length ds = num_devices st \<Longrightarrow> parity_ok st ds s0 \<Longrightarrow>
         \<forall>(buf, len, offset) \<in> set reqs. offset < 2 ^ 64 \<Longrightarrow>
         write_seq st ds reqs = Some ds' \<Longrightarrow>
         parity_ok st ds' s0 \<and> length ds' = num_devices st"
proof (induction reqs arbitrary: ds)
  case Nil
  then show ?case by simp
next
  case (Cons req reqs)
  obtain buf len offset where req: "req = (buf, len, offset)" by (cases req)
  from Cons.prems(3) req have off: "offset < 2 ^ 64" and rest: "\<forall>(buf, len, offset) \<in> set reqs. offset < 2 ^ 64"
    by simp_all
  from Cons.prems(4) req obtain u ds1
    where w: "xmp_write st ds buf len offset = Some (Inr u, ds1)"
      and seq: "write_seq st ds1 reqs = Some ds'"
    by (auto split: option.splits prod.splits sum.splits)
  from w have "xmp_write_loop st ds buf len offset = Some (Inr (), ds1)"
    by (simp add: xmp_write_def)
  from xmp_write_loop_parity [OF this, of s0] B N all Cons.prems(1,2) off
  have "length ds1 = num_devices st" "parity_ok st ds1 s0" by simp_all
  then show ?case using rest seq by (rule Cons.IH)
qed

lemma rmw_write_new_parity:
  assumes B: "0 < block_size st" and N: "3 \<le> num_devices st"
    and lds: "length ds = num_devices st" and off: "offset < 2 ^ 64"
    and all: "\<forall>i < num_devices st. \<not> dev_missing st ! i"
    and run: "rmw_write st ds buffer offset = (Inr u, ds')"
  shows "blk st ds' (parity_disk st (stripe st offset)) (stripe st offset)
      = xor_block (xor_block (blk st ds (parity_disk st (stripe st offset)) (stripe st offset))
            (blk st ds (data_disk (parity_disk st (stripe st offset)) (pos st offset))
               (stripe st offset)))
          (take (block_size st) buffer)"
proof -
  let ?s = "stripe st offset"
  let ?p = "parity_disk st ?s"
  let ?d = "data_disk ?p (pos st offset)"
  let ?nd = "take (block_size st) buffer"
  let ?phys = "?s * block_size st"
  let ?np = "xor_block (xor_block (blk st ds ?p ?s) (blk st ds ?d ?s)) ?nd"
  let ?ds1 = "put_blk st ds ?d ?phys ?nd"
  from N have p: "?p < num_devices st" by (intro parity_disk_less) simp
  from N have d: "?d < num_devices st" by (intro data_disk_less pos_less) simp
  have "?d \<noteq> ?p" by (rule data_disk_neq)
  then have pd: "?p \<noteq> ?d" by (rule not_sym)
  from all p d have pp: "\<not> dev_missing st ! ?p" and dp: "\<not> dev_missing st ! ?d" by simp_all
  from rmw_write_success [OF B off pp dp run]
  have fp: "?phys + block_size st \<le> length (ds ! ?p)"
    and fd: "?phys + block_size st \<le> length (ds ! ?d)"
    and lnd: "length ?nd = block_size st"
    and ds': "ds' = put_blk st ?ds1 ?p ?phys ?np"
    unfolding Let_def by blast+
  have "length (blk st ds ?p ?s) = block_size st" using fp by (rule length_blk)
  moreover have "length (blk st ds ?d ?s) = block_size st" using fd by (rule length_blk)
  ultimately have lnp: "length ?np = block_size st" using lnd by simp
  have "?ds1 ! ?p = ds ! ?p" using pd by (simp add: put_blk_other)
  with fp have fp1: "?phys + block_size st \<le> length (?ds1 ! ?p)" by simp
  from p lds have "?p < length ?ds1" by simp
  then have "blk st (put_blk st ?ds1 ?p ?phys ?np) ?p ?s = ?np"
    using lnp fp1 by (rule blk_put_same)
  with ds' show ?thesis by simp
qed

lemma rewrite3:
  "xmp_write raid3 written3 [1, 2, 3, 4] 4 4 = Some (Inr (), rewritten3)"
  by (simp add: xmp_write_def xmp_write_loop.simps rmw_write_def scenario_defs rewritten3_def
      geometry_defs xor_block_def pread_block_def pread_def
      pwrite_block_def pwrite_def Let_def)

text \<open>
  C6. Parity consistency is an invariant of writing. With all slots present, a stripe
  whose blocks XOR to zero over the \<open>N\<close> slots at every byte position still does so
  after any sequence of write requests that all return success, whichever of the two
  paths each block takes. A successful read-modify-write of one block leaves
  \<open>old_parity XOR old_data XOR new_data\<close> in the parity block.
\<close>

theorem parity_invariant:
  assumes N: "3 \<le> num_devices st" and B: "0 < block_size st"
    and all: "all_present st" and lds: "length ds = num_devices st"
  shows "(parity_ok st ds s
            \<and> (\<forall>(buf, len, offset) \<in> set reqs. offset < 2 ^ 64)
            \<and> write_seq st ds reqs = Some ds'
          \<longrightarrow> parity_ok st ds' s)
       \<and> (offset < 2 ^ 64 \<and> rmw_write st ds buffer offset = (Inr (), ds1)
          \<longrightarrow> blk st ds1 (parity_disk st (stripe st offset)) (stripe st offset)
              = xor_block
                  (xor_block (blk st ds (parity_disk st (stripe st offset)) (stripe st offset))
                     (blk st ds (data_disk (parity_disk st (stripe st offset)) (pos st offset))
                        (stripe st offset)))
                  (take (block_size st) buffer))"
proof -
  from all have pres: "\<forall>i < num_devices st. \<not> dev_missing st ! i"
    by (simp add: all_present_def)
  have seq: "parity_ok st ds' s"
    if "parity_ok st ds s" "\<forall>(buf, len, offset) \<in> set reqs. offset < 2 ^ 64"
      "write_seq st ds reqs = Some ds'"
    using write_seq_parity [OF B N pres lds that] by simp
  have rmw: "blk st ds1 (parity_disk st (stripe st offset)) (stripe st offset)
      = xor_block
          (xor_block (blk st ds (parity_disk st (stripe st offset)) (stripe st offset))
             (blk st ds (data_disk (parity_disk st (stripe st offset)) (pos st offset))
                (stripe st offset)))
          (take (block_size st) buffer)"
    if "offset < 2 ^ 64" "rmw_write st ds buffer offset = (Inr (), ds1)"
    using B N lds that(1) pres that(2) by (rule rmw_write_new_parity)
  from seq rmw show ?thesis by blast
qed

theorem parity_invariant_witness:
  "all_present raid3 \<and> parity_ok raid3 blank3 0
   \<and> write_seq raid3 blank3 [(aaaa_bbbb, 8, 0), ([1, 2, 3, 4], 4, 4)] = Some rewritten3
   \<and> parity_ok raid3 rewritten3 0"
proof -
  have N: "3 \<le> num_devices raid3" and B: "0 < block_size raid3"
    and lds: "length blank3 = num_devices raid3"
    by (simp_all add: scenario_defs)
  have all: "all_present raid3" by (simp add: all_present_def raid3_def range3)
  have par: "parity_ok raid3 blank3 0"
    by (simp add: parity_ok_def scenario_defs range3 upt3 blk_def xor_blocks_def xor_block_def
        zero_block_def replicate_numerals)
  have reqs: "\<forall>(buf, len, offset) \<in> set [(aaaa_bbbb, 8, 0), ([1, 2, 3, 4], 4 :: nat, 4 :: nat)].
      offset < 2 ^ 64"
    by simp
  have seq: "write_seq raid3 blank3 [(aaaa_bbbb, 8, 0), ([1, 2, 3, 4], 4, 4)] = Some rewritten3"
    by (simp add: raid3_write rewrite3)
  from parity_invariant [OF N B all lds, THEN conjunct1, rule_format, OF conjI [OF par conjI [OF reqs seq]]]
  have "parity_ok raid3 rewritten3 0" .
  with all par seq show ?thesis by simp
qed

section \<open>Rebuild\<close>

lemma xor_others_eq_parity:
  assumes par: "parity_ok st ds s" and p: "p < num_devices st"
  shows "xor_blocks st (map (\<lambda>i. blk st ds i s) (filter (\<lambda>i. i \<noteq> p) [0..<num_devices st]))
           = blk st ds p s"
proof -
  let ?f = "\<lambda>i. blk st ds i s"
  let ?all = "[0..<num_devices st]"
  let ?R = "xor_blocks st (map ?f (filter (\<lambda>i. i \<noteq> p) ?all))"
  from par have fit: "\<forall>i \<in> set ?all. s * block_size st + block_size st \<le> length (ds ! i)"
    and zero: "xor_blocks st (map ?f ?all) = zero_block st"
    unfolding parity_ok_def by blast+
  have len: "\<forall>i \<in> set ?all. length (?f i) = block_size st"
    using fit by (simp add: length_blk)
  have e: "xor_blocks st (map ?f ?all) = xor_block (?f p) ?R"
  proof (rule xor_blocks_split)
    show "distinct ?all" by simp
    show "p \<in> set ?all" using p by simp
    show "\<forall>i \<in> set ?all. length (?f i) = block_size st" by (rule len)
  qed
  have lR: "length ?R = block_size st" using len by (intro length_xor_blocks) simp
  have lp: "length (?f p) = block_size st" using len p by simp
  from zero e have "xor_block (?f p) ?R = replicate (block_size st) 0"
    by (simp only: zero_block_def)
  then have "?f p = ?R" using lp lR by (rule xor_block_eq_zeroD)
  then show ?thesis by (rule sym)
qed

lemma rebuild_stripe_ok:
  assumes B: "0 < block_size st" and N: "3 \<le> num_devices st"
    and t: "t < num_devices st"
    and all: "\<forall>i < num_devices st. \<not> dev_missing st ! i"
    and phys: "s * block_size st < 2 ^ 64"
    and par: "parity_ok st orig s"
    and same: "\<forall>i < num_devices st. i \<noteq> t \<longrightarrow> ds ! i = orig ! i"
    and fit: "s * block_size st + block_size st \<le> length (ds ! t)"
  shows "rebuild_stripe st ds t s
           = (Inr (), put_blk st ds t (s * block_size st) (blk st orig t s))"
proof -
  let ?n = "num_devices st"
  let ?p = "parity_disk st s"
  let ?phys = "s * block_size st"
  from N have p: "?p < ?n" by (intro parity_disk_less) simp
  have ph: "phys_offset st s = ?phys" using phys by (simp add: phys_offset_def)
  from par have ofit: "\<forall>i \<in> set [0..<?n]. ?phys + block_size st \<le> length (orig ! i)"
    unfolding parity_ok_def by blast
  have blk_same: "blk st ds i s = blk st orig i s" if "i < ?n" "i \<noteq> t" for i
    using that same by (intro blk_cong) simp
  have fits: "?phys + block_size st \<le> length (ds ! i)" if "i < ?n" "i \<noteq> t" for i
    using that same ofit by simp
  have lt: "length (blk st orig t s) = block_size st"
    using ofit t by (simp add: length_blk)
  have lle: "length (blk st orig t s) \<le> block_size st" using lt by simp
  have w: "pwrite_block st ds t (blk st orig t s) ?phys label
      = (Inr (), put_blk st ds t ?phys (blk st orig t s))" for label
    using lt fit by (simp add: pwrite_block_eq [OF B lle])
  show ?thesis
  proof (cases "t = ?p")
    case True
    have hyp: "\<forall>i \<in> set [0..<?n]. \<not> (i = ?p) \<longrightarrow>
        \<not> dev_missing st ! i \<and> ?phys + block_size st \<le> length (ds ! i)"
      using all fits True by simp
    have e1: "xor_peers st ds (\<lambda>i. i = ?p) RebuildMissing ''rebuild read (data)'' ?phys [0..<?n]
        (zero_block st)
      = (Inr (xor_block (zero_block st)
          (xor_blocks st (map (\<lambda>i. blk st ds i s) (filter (\<lambda>i. \<not> (i = ?p)) [0..<?n])))), ds)"
      using B length_zero_block hyp by (rule xor_peers_ok)
    have e3: "map (\<lambda>i. blk st ds i s) (filter (\<lambda>i. \<not> (i = ?p)) [0..<?n])
        = map (\<lambda>i. blk st orig i s) (filter (\<lambda>i. i \<noteq> ?p) [0..<?n])"
      using blk_same True by (intro map_cong refl) simp
    have e5: "xor_blocks st (map (\<lambda>i. blk st orig i s) (filter (\<lambda>i. i \<noteq> ?p) [0..<?n]))
        = blk st orig ?p s"
      using par p by (rule xor_others_eq_parity)
    have "(Inr (xor_block (zero_block st)
          (xor_blocks st (map (\<lambda>i. blk st ds i s) (filter (\<lambda>i. \<not> (i = ?p)) [0..<?n])))), ds)
        = (Inr (blk st orig t s) :: error + block, ds)"
      unfolding e3 e5 using True lt by (simp add: xor_block_zero_left)
    with e1 have "xor_peers st ds (\<lambda>i. i = ?p) RebuildMissing ''rebuild read (data)'' ?phys
        [0..<?n] (zero_block st) = (Inr (blk st orig t s), ds)"
      by (rule trans)
    with True w show ?thesis
      unfolding rebuild_stripe_def Let_def ph by simp
  next
    case False
    then have pt: "?p \<noteq> t" by (rule not_sym)
    from all p have pp: "\<not> dev_missing st ! ?p" by simp
    have rp: "pread_block st ds ?p ?phys ''rebuild read (parity)'' = (Inr (blk st ds ?p s), ds)"
      using B fits [OF p pt] by (rule pread_block_blk)
    have lp: "length (blk st ds ?p s) = block_size st"
      using fits [OF p pt] by (rule length_blk)
    have hyp: "\<forall>i \<in> set [0..<?n]. \<not> (i = ?p \<or> i = t) \<longrightarrow>
        \<not> dev_missing st ! i \<and> ?phys + block_size st \<le> length (ds ! i)"
      using all fits by simp
    have e1: "xor_peers st ds (\<lambda>i. i = ?p \<or> i = t) RebuildMissing ''rebuild read (data)'' ?phys
        [0..<?n] (blk st ds ?p s)
      = (Inr (xor_block (blk st ds ?p s)
          (xor_blocks st (map (\<lambda>i. blk st ds i s)
             (filter (\<lambda>i. \<not> (i = ?p \<or> i = t)) [0..<?n])))), ds)"
      using B lp hyp by (rule xor_peers_ok)
    have e2: "filter (\<lambda>i. \<not> (i = ?p \<or> i = t)) [0..<?n]
        = filter (\<lambda>i. i \<noteq> ?p \<and> i \<noteq> t) [0..<?n]"
      by (simp add: de_Morgan_disj)
    have e3: "map (\<lambda>i. blk st ds i s) (filter (\<lambda>i. i \<noteq> ?p \<and> i \<noteq> t) [0..<?n])
        = map (\<lambda>i. blk st orig i s) (filter (\<lambda>i. i \<noteq> ?p \<and> i \<noteq> t) [0..<?n])"
      using blk_same by (intro map_cong refl) simp
    have e4: "blk st ds ?p s = blk st orig ?p s" using p pt by (rule blk_same)
    have e5: "reconstructed st orig s ?p t = blk st orig t s"
      using par p t pt by (rule reconstructed_eq)
    have "(Inr (xor_block (blk st ds ?p s)
          (xor_blocks st (map (\<lambda>i. blk st ds i s)
             (filter (\<lambda>i. \<not> (i = ?p \<or> i = t)) [0..<?n])))), ds)
        = (Inr (blk st orig t s) :: error + block, ds)"
      unfolding e2 e3 e4 using e5 by (simp add: reconstructed_def)
    with e1 have "xor_peers st ds (\<lambda>i. i = ?p \<or> i = t) RebuildMissing
        ''rebuild read (data)'' ?phys [0..<?n] (blk st ds ?p s) = (Inr (blk st orig t s), ds)"
      by (rule trans)
    with False pp rp w show ?thesis
      unfolding rebuild_stripe_def Let_def ph by simp
  qed
qed

lemma rebuilt_step:
  assumes t: "t < length orig" and g: "length g = length (orig ! t)"
    and fit: "j * block_size st + block_size st \<le> length (orig ! t)"
  shows "put_blk st (rebuilt st orig t g j) t (j * block_size st) (blk st orig t j)
           = rebuilt st orig t g (Suc j)"
proof -
  let ?o = "orig ! t"
  let ?a = "j * block_size st"
  let ?b = "block_size st"
  have la: "length (take ?a ?o) = ?a" using fit by simp
  have 1: "take ?a (take ?a ?o @ drop ?a g) = take ?a ?o" using la by simp
  have 2: "drop (?a + ?b) (take ?a ?o @ drop ?a g) = drop (?a + ?b) g"
    using la by (simp add: add.commute)
  have 3: "take ?a ?o @ take ?b (drop ?a ?o) = take (?a + ?b) ?o"
    by (simp only: take_add)
  have X: "rebuilt st orig t g j ! t = take ?a ?o @ drop ?a g"
    using t by (simp add: rebuilt_def)
  have "put_blk st (rebuilt st orig t g j) t ?a (blk st orig t j)
      = orig[t := take ?a (take ?a ?o @ drop ?a g) @ blk st orig t j
                  @ drop (?a + ?b) (take ?a ?o @ drop ?a g)]"
    unfolding put_blk_def X by (simp add: rebuilt_def)
  also have "\<dots> = orig[t := (take ?a ?o @ take ?b (drop ?a ?o)) @ drop (?a + ?b) g]"
    unfolding 1 2 blk_def by (simp only: append_assoc)
  also have "\<dots> = orig[t := take (?a + ?b) ?o @ drop (?a + ?b) g]"
    unfolding 3 ..
  also have "\<dots> = rebuilt st orig t g (Suc j)"
    unfolding rebuilt_def by (simp add: add.commute)
  finally show ?thesis .
qed

lemma rebuild_from_ok:
  assumes B: "0 < block_size st" and N: "3 \<le> num_devices st"
    and lo: "length orig = num_devices st" and t: "t < num_devices st"
    and all: "\<forall>i < num_devices st. \<not> dev_missing st ! i"
    and g: "length g = length (orig ! t)"
    and K64: "K * block_size st < 2 ^ 64"
    and cons: "\<forall>s < K. parity_ok st orig s"
  shows "k = K - j \<Longrightarrow> j \<le> K \<Longrightarrow>
         rebuild_from st (rebuilt st orig t g j) t K j = (Inr (), rebuilt st orig t g K)"
proof (induction k arbitrary: j)
  case 0
  then have "j = K" by simp
  then show ?case by simp
next
  case (Suc k)
  then have j: "j < K" by simp
  let ?ds = "rebuilt st orig t g j"
  from cons j have par: "parity_ok st orig j" by simp
  then have ofit: "j * block_size st + block_size st \<le> length (orig ! t)"
    using t by (simp add: parity_ok_def)
  from j have "j \<le> K" by simp
  then have "j * block_size st \<le> K * block_size st" by (rule mult_le_mono1)
  then have phys: "j * block_size st < 2 ^ 64" using K64 by (rule le_less_trans)
  have same: "\<forall>i < num_devices st. i \<noteq> t \<longrightarrow> ?ds ! i = orig ! i"
    by (simp add: rebuilt_def)
  have "length (?ds ! t) = length (orig ! t)"
    using t lo g ofit by (simp add: rebuilt_def)
  with ofit have fit: "j * block_size st + block_size st \<le> length (?ds ! t)" by simp
  have "rebuild_stripe st ?ds t j
      = (Inr (), put_blk st ?ds t (j * block_size st) (blk st orig t j))"
    using B N t all phys par same fit by (rule rebuild_stripe_ok)
  also have "put_blk st ?ds t (j * block_size st) (blk st orig t j)
      = rebuilt st orig t g (Suc j)"
    using t lo g ofit by (intro rebuilt_step) simp_all
  finally have step: "rebuild_stripe st ?ds t j = (Inr (), rebuilt st orig t g (Suc j))" .
  have "rebuild_from st (rebuilt st orig t g (Suc j)) t K (Suc j)
      = (Inr (), rebuilt st orig t g K)"
    using Suc.prems j by (intro Suc.IH) simp_all
  with j step show ?case
    by (subst rebuild_from.simps) simp
qed

lemma rebuilt_0:
  assumes "length g = length (orig ! t)"
  shows "rebuilt st orig t g 0 = orig[t := g]"
  by (simp add: rebuilt_def)

lemma rebuilt_all:
  assumes "length (orig ! t) = K * block_size st" and "length g = length (orig ! t)"
  shows "rebuilt st orig t g K = orig"
  using assms by (simp add: rebuilt_def)

text \<open>
  C7. Rebuild correctness. Take a RAID set with all slots present whose \<open>K\<close> stripes
  are parity consistent, and replace the content of one slot \<open>t\<close> by a device \<open>g\<close> of
  the same size. The rebuild for target \<open>t\<close> returns success and restores the \<open>K\<close>
  blocks of slot \<open>t\<close> byte for byte, whichever slot \<open>t\<close> is; no other slot changes,
  and bytes of the target beyond the \<open>K\<close> stripes stay as \<open>g\<close> has them. When the
  slot holds exactly \<open>K\<close> blocks the rebuilt RAID set is the original one.
\<close>

theorem rebuild_restores:
  assumes ok: "raid_ok st orig" and all: "all_present st"
    and t: "t < num_devices st"
    and cons: "\<forall>s < num_stripes st. parity_ok st orig s"
    and g: "length g = length (orig ! t)"
  shows "do_raid5_rebuild st (orig[t := g]) t
           = (Inr (), rebuilt st orig t g (num_stripes st))
       \<and> take (num_stripes st * block_size st) (rebuilt st orig t g (num_stripes st) ! t)
           = take (num_stripes st * block_size st) (orig ! t)
       \<and> (\<forall>i < num_devices st. i \<noteq> t \<longrightarrow> rebuilt st orig t g (num_stripes st) ! i = orig ! i)
       \<and> (length (orig ! t) = num_stripes st * block_size st \<longrightarrow>
            do_raid5_rebuild st (orig[t := g]) t = (Inr (), orig))"
proof -
  let ?K = "num_stripes st"
  from ok have B: "0 < block_size st" and N: "3 \<le> num_devices st"
    and lo: "length orig = num_devices st" and S: "raid_device_size st < 2 ^ 64"
    and SK: "raid_device_size st = ?K * stripe_span st"
    by (simp_all add: raid_ok_def)
  from N have N2: "2 \<le> num_devices st" by simp
  from all have pres: "\<forall>i < num_devices st. \<not> dev_missing st ! i"
    by (simp add: all_present_def)
  from block_le_span [OF N2] B have span: "stripe_span st \<noteq> 0" by simp
  have "?K * block_size st \<le> ?K * stripe_span st"
    using block_le_span [OF N2] by (rule mult_le_mono2)
  moreover have "?K * stripe_span st < 2 ^ 64" using S SK by simp
  ultimately have K64: "?K * block_size st < 2 ^ 64" by (rule le_less_trans)
  have "rebuild_from st (rebuilt st orig t g 0) t ?K 0 = (Inr (), rebuilt st orig t g ?K)"
    using B N lo t pres g K64 cons by (rule rebuild_from_ok) simp_all
  then have run: "do_raid5_rebuild st (orig[t := g]) t = (Inr (), rebuilt st orig t g ?K)"
    using span g by (simp add: do_raid5_rebuild_def rebuilt_0 num_stripes_def)
  from ok t pres have "?K * block_size st \<le> length (orig ! t)"
    by (simp add: raid_ok_def)
  with t lo have target: "take (?K * block_size st) (rebuilt st orig t g ?K ! t)
      = take (?K * block_size st) (orig ! t)"
    by (simp add: rebuilt_def)
  have others: "\<forall>i < num_devices st. i \<noteq> t \<longrightarrow> rebuilt st orig t g ?K ! i = orig ! i"
    by (simp add: rebuilt_def)
  have whole: "do_raid5_rebuild st (orig[t := g]) t = (Inr (), orig)"
    if "length (orig ! t) = ?K * block_size st"
    using run rebuilt_all [OF that g] by simp
  from run target others whole show ?thesis by blast
qed

theorem rebuild_restores_witness:
  "raid_ok raid3 written3 \<and> all_present raid3 \<and> num_stripes raid3 = 2
   \<and> parity_ok raid3 written3 0 \<and> parity_ok raid3 written3 1
   \<and> do_raid5_rebuild raid3 (written3[1 := [0, 0, 0, 0, 0, 0, 0, 0]]) 1 = (Inr (), written3)"
proof -
  have ok: "raid_ok raid3 written3" by (rule raid_ok_scenario)
  have all: "all_present raid3" by (simp add: all_present_def raid3_def range3)
  have t: "1 < num_devices raid3" by (simp add: raid3_def)
  have K: "num_stripes raid3 = 2" by (simp add: raid3_def num_stripes_def stripe_span_def)
  have p0: "parity_ok raid3 written3 0" and p1: "parity_ok raid3 written3 1"
    by (simp_all add: parity_ok_def scenario_defs range3 upt3 blk_def xor_blocks_def
        xor_block_def zero_block_def replicate_numerals)
  have cons: "\<forall>s < num_stripes raid3. parity_ok raid3 written3 s"
    unfolding K using p0 p1 by (auto simp: less_2_cases_iff)
  have g: "length [0, 0, 0, 0, 0, 0, 0, 0 :: byte] = length (written3 ! 1)"
    by (simp add: written3_def)
  have whole: "length (written3 ! 1) = num_stripes raid3 * block_size raid3"
    unfolding K by (simp add: written3_def raid3_def)
  from rebuild_restores [OF ok all t cons g] whole
  have "do_raid5_rebuild raid3 (written3[1 := [0, 0, 0, 0, 0, 0, 0, 0]]) 1 = (Inr (), written3)"
    by blast
  with ok all K p0 p1 show ?thesis by blast
qed

section \<open>Startup\<close>

lemma strtoul_examples: "strtoul ''0'' = 0" "strtoul ''abc'' = 0" "strtoul ''4'' = 4"
  by (simp_all add: strtoul_def is_space_def is_digit_def)

text \<open>
  C9. The block size argument is not validated. With BLOCKSIZE \<open>0\<close>, or a token such as
  \<open>abc\<close> that \<open>strtoul\<close> turns into 0, and a first device that opens, \<open>main\<close>
  reaches \<open>size / block_size\<close> with a zero block size: the startup ends in a division
  by zero, not in a configuration error.
\<close>

theorem zero_block_size_divides:
  "main_startup blank_fs [''0'', ''/dev/nbd0'', ''a'', ''b'', ''c''] = Inl DivByZero
   \<and> main_startup blank_fs [''abc'', ''/dev/nbd0'', ''a'', ''b'', ''c''] = Inl DivByZero
   \<and> main_startup blank_fs [''4'', ''/dev/nbd0'', ''a'', ''b'', ''c''] = Inr (raid3, blank3)"
  by (simp add: main_startup_def parse_args_def strtoul_examples blank_fs_def
      block_size_u64_def raid3_def blank3_def)

text \<open>
  C8. Rebuild of a data slot while the parity slot of the stripe is missing. For the
  one-stripe set whose parity slot 0 is MISSING and whose slot 1 is the rebuild target,
  \<open>do_raid5_rebuild\<close> takes the parity block as zero, writes the block of slot 2 to
  the target and returns success; \<open>main\<close> goes on to serve requests. The data the
  target held before (AAAA) is not what it holds after (BBBB).
\<close>

theorem rebuild_with_missing_parity:
  "do_raid5_rebuild
      \<lparr>num_devices = 3, block_size = 4, dev_missing = [True, False, False], raid_device_size = 8\<rparr>
      [[], [0, 0, 0, 0], [66, 66, 66, 66]] 1
     = (Inr (), [[], [66, 66, 66, 66], [66, 66, 66, 66]])
   \<and> main_startup lost_parity_fs [''4'', ''/dev/nbd0'', ''MISSING'', ''+r'', ''c'']
     = Inr (\<lparr>num_devices = 3, block_size = 4, dev_missing = [True, False, False],
              raid_device_size = 8\<rparr>,
            [[], [66, 66, 66, 66], [66, 66, 66, 66]])"
proof -
  have r: "do_raid5_rebuild
      \<lparr>num_devices = 3, block_size = 4, dev_missing = [True, False, False], raid_device_size = 8\<rparr>
      [[], [0, 0, 0, 0], [66, 66, 66, 66]] 1
     = (Inr (), [[], [66, 66, 66, 66], [66, 66, 66, 66]])"
    by (simp add: do_raid5_rebuild_def rebuild_stripe_def geometry_defs upt3
        zero_block_def replicate_numerals xor_block_def pread_block_def pread_def
        pwrite_block_def pwrite_def Let_def)
  have r': "do_raid5_rebuild
      \<lparr>num_devices = Suc (Suc (Suc 0)), block_size = 4, dev_missing = [True, False, False],
         raid_device_size = 8\<rparr>
      [[], [0, 0, 0, 0], [66, 66, 66, 66]] (Suc 0)
     = (Inr (), [[], [66, 66, 66, 66], [66, 66, 66, 66]])"
    using r by (simp only: numeral_3_eq_3 One_nat_def)
  have "main_startup lost_parity_fs [''4'', ''/dev/nbd0'', ''MISSING'', ''+r'', ''c'']
     = Inr (\<lparr>num_devices = 3, block_size = 4, dev_missing = [True, False, False],
              raid_device_size = 8\<rparr>,
            [[], [66, 66, 66, 66], [66, 66, 66, 66]])"
    using r' by (simp add: main_startup_def parse_args_def strtoul_examples lost_parity_fs_def
        block_size_u64_def Let_def)
  with r show ?thesis by simp
qed

text \<open>
  C3. Degraded read on the set that \<open>main\<close> builds from a short back-end. The command
  line \<open>4 /dev/nbd0 MISSING b c\<close>, with b of two bytes and c of two blocks, starts the
  engine with slot 0 alone missing and a virtual device of 16 bytes: the zero blocks of
  b are taken for "\<open>min_blocks\<close> not yet set" and replaced by the two blocks of c. The
  read of the first block of that virtual device, whose data slot 1 is present, gets a
  short transfer from b and returns -1. With the two devices in the other order the
  startup ends with "no available devices".
\<close>

theorem degraded_read_short_backend:
  "main_startup short_fs [''4'', ''/dev/nbd0'', ''MISSING'', ''b'', ''c'']
     = Inr (\<lparr>num_devices = 3, block_size = 4, dev_missing = [True, False, False],
              raid_device_size = 16\<rparr>,
            [[], [0, 0], [0, 0, 0, 0, 0, 0, 0, 0]])
   \<and> xmp_read \<lparr>num_devices = 3, block_size = 4, dev_missing = [True, False, False],
                 raid_device_size = 16\<rparr>
        [[], [0, 0], [0, 0, 0, 0, 0, 0, 0, 0]] 4 0
     = Some (Inl (IOError ''pread data''), [[], [0, 0], [0, 0, 0, 0, 0, 0, 0, 0]])
   \<and> retcode (Inl (IOError ''pread data'') :: error + byte list) = - 1
   \<and> main_startup short_fs [''4'', ''/dev/nbd0'', ''MISSING'', ''c'', ''b''] = Inl NoDevices"
proof -
  have s1: "main_startup short_fs [''4'', ''/dev/nbd0'', ''MISSING'', ''b'', ''c'']
     = Inr (\<lparr>num_devices = 3, block_size = 4, dev_missing = [True, False, False],
              raid_device_size = 16\<rparr>,
            [[], [0, 0], [0, 0, 0, 0, 0, 0, 0, 0]])"
    by (simp add: main_startup_def parse_args_def strtoul_examples short_fs_def
        block_size_u64_def Let_def)
  have s2: "main_startup short_fs [''4'', ''/dev/nbd0'', ''MISSING'', ''c'', ''b''] = Inl NoDevices"
    by (simp add: main_startup_def parse_args_def strtoul_examples short_fs_def
        block_size_u64_def Let_def)
  have r: "xmp_read \<lparr>num_devices = 3, block_size = 4, dev_missing = [True, False, False],
                 raid_device_size = 16\<rparr>
        [[], [0, 0], [0, 0, 0, 0, 0, 0, 0, 0]] 4 0
     = Some (Inl (IOError ''pread data''), [[], [0, 0], [0, 0, 0, 0, 0, 0, 0, 0]])"
    by (simp add: xmp_read_def xmp_read_loop.simps read_block_def geometry_defs
        pread_block_def pread_def)
  from s1 s2 r show ?thesis by (simp add: retcode_def)
qed

end
